theory Spec2Isabelle
  imports Main
begin

section \<open>Data model\<close>

text \<open>
  A Python \<^verbatim>\<open>str\<close> is a sequence of Unicode code points. Isabelle's \<open>char\<close> is a
  byte, so a string is modelled as the list of its code points; \<open>asc\<close> embeds an ASCII
  literal.
\<close>

type_synonym pystr = "nat list"

definition asc :: "string \<Rightarrow> pystr" where
  "asc s = map of_char s"

text \<open>
  \<^verbatim>\<open>@dataclass class ChapterRange: title: str; start_page: int; end_page: int\<close>
  (page numbers are 1-based, \<open>end_page\<close> inclusive). Python integers are unbounded.
\<close>

record ChapterRange =
  title :: pystr
  start_page :: int
  end_page :: int

text \<open>The module-level list \<^verbatim>\<open>chapter_names\<close> of predefined output names.\<close>

definition chapter_names :: "pystr list" where
  "chapter_names =
     [asc ''01-mol-bio.pdf'', asc ''02-history.pdf'', asc ''03-genomes.pdf'',
      asc ''04-genes.pdf'', asc ''05-alignment-m.pdf'', asc ''06-alignment-t.pdf'',
      asc ''07-filogeny.pdf'']"

section \<open>Range calculator\<close>

text \<open>
  The body of the loop of \<^verbatim>\<open>compute_ranges\<close> for one index \<open>idx\<close> with its entry
  \<open>(title, start)\<close>: the end is one less than the next entry's start page, or the total
  page count for the last entry, and is clamped up to \<open>start\<close>. The lookup
  \<^verbatim>\<open>toc_entries[idx + 1]\<close> is guarded by \<^verbatim>\<open>idx + 1 < len(toc_entries)\<close>, so it is
  always in range.
\<close>

definition range_of_entry :: "(pystr \<times> int) list \<Rightarrow> int \<Rightarrow> nat \<times> (pystr \<times> int) \<Rightarrow> ChapterRange" where
  "range_of_entry toc_entries total_pages e =
     (case e of (idx, (ttl, start)) \<Rightarrow>
        let end1 = (if idx + 1 < length toc_entries
                    then snd (toc_entries ! (idx + 1)) - 1
                    else total_pages);
            end2 = (if end1 < start then start else end1)
        in \<lparr>title = ttl, start_page = start, end_page = end2\<rparr>)"

text \<open>
  \<^verbatim>\<open>for idx, (title, start) in enumerate(toc_entries): ...; ranges.append(...)\<close>:
  a left fold over the enumerated entries that appends to the accumulator.
\<close>

definition compute_ranges :: "(pystr \<times> int) list \<Rightarrow> int \<Rightarrow> ChapterRange list" where
  "compute_ranges toc_entries total_pages =
     foldl (\<lambda>ranges e. ranges @ [range_of_entry toc_entries total_pages e])
       [] (enumerate 0 toc_entries)"

section \<open>Whitespace and \<^verbatim>\<open>str.strip\<close>\<close>

text \<open>
  \<^verbatim>\<open>str.strip()\<close> without argument and the regular expression class \<^verbatim>\<open>\s\<close> (on
  \<^verbatim>\<open>str\<close> patterns) use the same test, the interpreter's whitespace table. The
  table belongs to the Python runtime, not to the source; it is small and is written
  out here: U+0009..U+000D, U+001C..U+001F, U+0020, U+0085, U+00A0, U+1680,
  U+2000..U+200A, U+2028, U+2029, U+202F, U+205F and U+3000.
\<close>

definition py_isspace :: "nat \<Rightarrow> bool" where
  "py_isspace c =
     ((9 \<le> c \<and> c \<le> 13) \<or> (28 \<le> c \<and> c \<le> 32) \<or> c = 133 \<or> c = 160 \<or> c = 5760 \<or>
      (8192 \<le> c \<and> c \<le> 8202) \<or> c = 8232 \<or> c = 8233 \<or> c = 8239 \<or> c = 8287 \<or>
      c = 12288)"

definition strip :: "pystr \<Rightarrow> pystr" where
  "strip s = rev (dropWhile py_isspace (rev (dropWhile py_isspace s)))"

section \<open>Blank-page detection\<close>

text \<open>
  Modelled from the spec: the page objects of the document library (pypdf), whose
  declarations are not part of the source. The spec's Document is an ordered sequence
  of opaque Pages that is only read; a page is blank when it carries no content stream
  or its extracted text is empty or whitespace-only, and either access can fail. So a
  page is modelled by what the two methods the source calls on it do: each either
  raises or returns.
  \<open>get_contents\<close> returns \<^verbatim>\<open>None\<close> or a content stream (opaque, \<open>Some ()\<close>);
  \<open>extract_text\<close> returns a string (or a falsy value, which \<^verbatim>\<open>or ""\<close> turns into
  the empty string). \<open>page_obj\<close> stands for the rest of the page object and tells
  pages apart.
\<close>

datatype 'a outcome = Raises | Returns 'a

record Page =
  page_obj :: nat
  get_contents :: "unit option outcome"
  extract_text :: "pystr option outcome"

text \<open>
  A page that has a content stream and whose text extraction returns \<open>t\<close>; the
  examples below are built from such pages.
\<close>

definition text_page :: "nat \<Rightarrow> string \<Rightarrow> Page" where
  "text_page n t = \<lparr>page_obj = n, get_contents = Returns (Some ()), extract_text = Returns (Some (asc t))\<rparr>"

text \<open>
  The exceptions of the model: a page lookup outside the document, a source file that
  is missing or is not a document, and a failure of the file system while writing.
\<close>

datatype error = IndexError | FileNotFoundError | PdfReadError | OSError

text \<open>
  Modelled from the spec: the page sequence \<^verbatim>\<open>reader.pages\<close> of the document library,
  an ordered sequence of pages read by 0-based index. \<^verbatim>\<open>reader.pages[index]\<close> is
  Python sequence indexing: a negative index counts from the end, and an index outside
  the sequence raises \<^verbatim>\<open>IndexError\<close>.
\<close>

definition pages_getitem :: "Page list \<Rightarrow> int \<Rightarrow> error + Page" where
  "pages_getitem pages index =
     (let len_self = int (length pages);
          index1 = (if index < 0 then len_self + index else index)
      in if index1 < 0 \<or> len_self \<le> index1 then Inl IndexError
         else Inr (pages ! nat index1))"

text \<open>
  \<^verbatim>\<open>is_blank_page\<close>. The page lookup is outside both \<^verbatim>\<open>try\<close> blocks, so its
  \<^verbatim>\<open>IndexError\<close> reaches the caller. In the first block only \<^verbatim>\<open>contents is None\<close> returns;
  an exception there is swallowed and control falls to the text check. In the second
  block an exception is swallowed and the function returns \<^verbatim>\<open>False\<close>.
\<close>

definition is_blank_page :: "Page list \<Rightarrow> int \<Rightarrow> error + bool" where
  "is_blank_page reader page_index_zero_based =
     (case pages_getitem reader page_index_zero_based of
        Inl e \<Rightarrow> Inl e
      | Inr page \<Rightarrow>
          (case get_contents page of
             Returns None \<Rightarrow> Inr True
           | _ \<Rightarrow>
               (case extract_text page of
                  Raises \<Rightarrow> Inr False
                | Returns t \<Rightarrow>
                    (let text = (case t of None \<Rightarrow> [] | Some u \<Rightarrow> u)
                     in if strip text = [] then Inr True else Inr False))))"

section \<open>Filename resolver\<close>

text \<open>
  \<^verbatim>\<open>re.sub\<close> for a pattern of the form \<^verbatim>\<open>[...]+\<close>: scanning from the left, every
  maximal run of characters of the class is replaced by \<open>repl\<close>.
\<close>

function re_sub_class :: "(nat \<Rightarrow> bool) \<Rightarrow> pystr \<Rightarrow> pystr \<Rightarrow> pystr" where
  "re_sub_class P repl [] = []"
| "re_sub_class P repl (c # cs) =
     (if P c then repl @ re_sub_class P repl (dropWhile P cs)
      else c # re_sub_class P repl cs)"
  by pat_completeness auto
termination
  by (relation "measure (\<lambda>(P, repl, s). length s)")
     (auto simp: length_dropWhile_le less_Suc_eq_le)

text \<open>
  The character classes of \<^verbatim>\<open>_sanitize_filename\<close>. \<^verbatim>\<open>[\\/]\<close> is backslash or slash.
  \<^verbatim>\<open>\w\<close> on a \<^verbatim>\<open>str\<close> pattern is an alphanumeric code point or the underscore; in
  ASCII the alphanumerics are the digits and letters, beyond ASCII they are given by
  the interpreter's Unicode table, which is not part of the source and is the
  parameter \<open>alnum\<close>.
\<close>

definition is_sep :: "nat \<Rightarrow> bool" where
  "is_sep c = (c = 92 \<or> c = 47)"

definition py_isalnum :: "(nat \<Rightarrow> bool) \<Rightarrow> nat \<Rightarrow> bool" where
  "py_isalnum alnum c =
     (if c < 128 then (48 \<le> c \<and> c \<le> 57) \<or> (65 \<le> c \<and> c \<le> 90) \<or> (97 \<le> c \<and> c \<le> 122)
      else alnum c)"

definition is_word :: "(nat \<Rightarrow> bool) \<Rightarrow> nat \<Rightarrow> bool" where
  "is_word alnum c = (py_isalnum alnum c \<or> c = 95)"

text \<open>The class \<^verbatim>\<open>[\w\-\. ]\<close>: word character, hyphen, dot or space.\<close>

definition is_kept :: "(nat \<Rightarrow> bool) \<Rightarrow> nat \<Rightarrow> bool" where
  "is_kept alnum c = (is_word alnum c \<or> c = 45 \<or> c = 46 \<or> c = 32)"

definition sanitize_filename :: "(nat \<Rightarrow> bool) \<Rightarrow> pystr \<Rightarrow> pystr" where
  "sanitize_filename alnum name0 =
     (let name1 = strip name0;
          name2 = re_sub_class is_sep (asc ''-'') name1;
          name3 = re_sub_class (\<lambda>c. \<not> is_kept alnum c) [] name2;
          name4 = strip (re_sub_class py_isspace (asc '' '') name3)
      in name4)"

text \<open>
  The format \<^verbatim>\<open>{i+1:02d}\<close>: the decimal digits of a natural number, padded with
  zeros on the left to at least two characters.
\<close>

function digits :: "nat \<Rightarrow> pystr" where
  "digits n = (if n < 10 then [48 + n] else digits (n div 10) @ [48 + n mod 10])"
  by pat_completeness auto
termination
  by (relation "measure (\<lambda>n. n)") auto

declare digits.simps [simp del]

definition fmt02d :: "nat \<Rightarrow> pystr" where
  "fmt02d n = (let d = digits n in replicate (2 - length d) 48 @ d)"

text \<open>The choice of the output name in \<^verbatim>\<open>split_pdf\<close> for chapter index \<open>i\<close>.\<close>

definition resolve_filename :: "(nat \<Rightarrow> bool) \<Rightarrow> bool \<Rightarrow> nat \<Rightarrow> ChapterRange \<Rightarrow> pystr" where
  "resolve_filename alnum use_chapter_names i info =
     (if use_chapter_names \<and> i < length chapter_names then chapter_names ! i
      else sanitize_filename alnum (fmt02d (i + 1) @ asc ''-'' @ title info @ asc ''.pdf''))"

section \<open>Document splitter\<close>

text \<open>
  The last 0-based page index to copy for a range: \<open>end0\<close>, or one less (but not
  below \<open>start0\<close>) when the page at \<open>end0\<close> is blank.
\<close>

definition last_page_to_include :: "Page list \<Rightarrow> ChapterRange \<Rightarrow> error + int" where
  "last_page_to_include reader info =
     (let start0 = start_page info - 1;
          end0 = end_page info - 1
      in case is_blank_page reader end0 of
           Inl e \<Rightarrow> Inl e
         | Inr blank \<Rightarrow> Inr (if blank then max start0 (end0 - 1) else end0))"

text \<open>
  \<^verbatim>\<open>for p in range(...): writer.add_page(reader.pages[p])\<close>: the writer is the list
  of pages added so far; a failing page lookup aborts.
\<close>

fun add_pages :: "Page list \<Rightarrow> int list \<Rightarrow> Page list \<Rightarrow> error + Page list" where
  "add_pages reader [] writer = Inr writer"
| "add_pages reader (p # ps) writer =
     (case pages_getitem reader p of
        Inl e \<Rightarrow> Inl e
      | Inr page \<Rightarrow> add_pages reader ps (writer @ [page]))"

text \<open>
  The writer built for one range, starting from a fresh \<^verbatim>\<open>PdfWriter()\<close>;
  \<^verbatim>\<open>range(start0, last_page_to_include + 1)\<close> is the integer interval
  \<open>[start0..last_page]\<close>.
\<close>

definition build_writer :: "Page list \<Rightarrow> ChapterRange \<Rightarrow> error + Page list" where
  "build_writer reader info =
     (case last_page_to_include reader info of
        Inl e \<Rightarrow> Inl e
      | Inr last_page \<Rightarrow> add_pages reader [start_page info - 1..last_page] [])"

text \<open>
  The file system. A path is the list of its components, as \<^verbatim>\<open>pathlib.Path\<close> holds
  it; \<^verbatim>\<open>output_dir / filename\<close> appends one component, for a name without separator.
  Two paths name the same file when they are the same list: links, case-insensitive
  volumes and relative against absolute spellings are outside the model, and so are
  the directories that \<^verbatim>\<open>mkdir\<close> creates. A file holds a document or, after a write
  that failed midway, damaged contents.
\<close>

type_synonym path = "pystr list"

datatype file_content = Pdf "Page list" | Damaged

type_synonym filesystem = "path \<Rightarrow> file_content option"

text \<open>
  Modelled from the spec: opening the source document with the document library,
  \<^verbatim>\<open>PdfReader(str(pdf_path))\<close>. The reader holds the ordered page sequence of the file
  as it is when opened. A missing file and a file that is not a document raise.
\<close>

definition open_reader :: "filesystem \<Rightarrow> path \<Rightarrow> error + Page list" where
  "open_reader fs pdf_path =
     (case fs pdf_path of
        None \<Rightarrow> Inl FileNotFoundError
      | Some Damaged \<Rightarrow> Inl PdfReadError
      | Some (Pdf pages) \<Rightarrow> Inr pages)"

text \<open>
  What the environment does with
  \<^verbatim>\<open>out_path.parent.mkdir(...); with out_path.open("wb") as f: writer.write(f)\<close>
  for a given path: all three calls succeed; or \<^verbatim>\<open>mkdir\<close> or \<^verbatim>\<open>open\<close> raises and the
  file system is as before; or \<^verbatim>\<open>open\<close> has truncated the file and the write raises.
  Which of these happens (permissions, a full disk) is not decided by the source and
  is the parameter \<open>env\<close> of the functions below.
\<close>

datatype io_result = IoOk | IoFailsBeforeOpen | IoFailsInWrite

definition write_file ::
  "(path \<Rightarrow> io_result) \<Rightarrow> path \<Rightarrow> Page list \<Rightarrow> filesystem \<Rightarrow> error option \<times> filesystem" where
  "write_file env out_path writer fs =
     (case env out_path of
        IoOk \<Rightarrow> (None, fs(out_path \<mapsto> Pdf writer))
      | IoFailsBeforeOpen \<Rightarrow> (Some OSError, fs)
      | IoFailsInWrite \<Rightarrow> (Some OSError, fs(out_path \<mapsto> Damaged)))"

text \<open>
  The loop of \<^verbatim>\<open>split_pdf\<close> over the enumerated ranges, threading the file system.
  An exception ends the run and leaves the file system as it is at that moment.
\<close>

fun split_loop ::
  "(path \<Rightarrow> io_result) \<Rightarrow> (nat \<Rightarrow> bool) \<Rightarrow> Page list \<Rightarrow> path \<Rightarrow> bool \<Rightarrow> int option
     \<Rightarrow> (nat \<times> ChapterRange) list \<Rightarrow> filesystem \<Rightarrow> error option \<times> filesystem" where
  "split_loop env alnum reader output_dir use_chapter_names only_index [] fs = (None, fs)"
| "split_loop env alnum reader output_dir use_chapter_names only_index ((i, info) # rest) fs =
     (if only_index \<noteq> None \<and> Some (int i) \<noteq> only_index
      then split_loop env alnum reader output_dir use_chapter_names only_index rest fs
      else case build_writer reader info of
             Inl e \<Rightarrow> (Some e, fs)
           | Inr writer \<Rightarrow>
               (case write_file env
                       (output_dir @ [resolve_filename alnum use_chapter_names i info])
                       writer fs of
                  (Some e, fs1) \<Rightarrow> (Some e, fs1)
                | (None, fs1) \<Rightarrow>
                    split_loop env alnum reader output_dir use_chapter_names only_index
                      rest fs1))"

definition split_pdf ::
  "(path \<Rightarrow> io_result) \<Rightarrow> (nat \<Rightarrow> bool) \<Rightarrow> path \<Rightarrow> ChapterRange list \<Rightarrow> path \<Rightarrow> bool
     \<Rightarrow> int option \<Rightarrow> filesystem \<Rightarrow> error option \<times> filesystem" where
  "split_pdf env alnum pdf_path ranges output_dir use_chapter_names only_index fs =
     (case open_reader fs pdf_path of
        Inl e \<Rightarrow> (Some e, fs)
      | Inr reader \<Rightarrow>
          split_loop env alnum reader output_dir use_chapter_names only_index
            (enumerate 0 ranges) fs)"

text \<open>
  Fixed parameters for the examples: an environment in which every write succeeds,
  the table with no alphanumeric code point beyond ASCII, and the file system that
  holds one document.
\<close>

definition io_always_ok :: "path \<Rightarrow> io_result" where
  "io_always_ok p = IoOk"

definition ascii_only :: "nat \<Rightarrow> bool" where
  "ascii_only c = False"

definition single_file :: "path \<Rightarrow> Page list \<Rightarrow> filesystem" where
  "single_file p pages = Map.empty(p \<mapsto> Pdf pages)"

section \<open>Properties of the range calculator\<close>

lemma foldl_append_single: "foldl (\<lambda>acc x. acc @ [f x]) a xs = a @ map f xs"
  by (induction xs arbitrary: a) simp_all

lemma compute_ranges_map:
  "compute_ranges es P = map (range_of_entry es P) (enumerate 0 es)"
  by (simp add: compute_ranges_def foldl_append_single)

lemma length_compute_ranges: "length (compute_ranges es P) = length es"
  by (simp add: compute_ranges_map)

lemma compute_ranges_nth:
  "i < length es \<Longrightarrow> compute_ranges es P ! i = range_of_entry es P (i, es ! i)"
  by (simp add: compute_ranges_map nth_enumerate_eq)

lemma start_page_nth:
  "i < length es \<Longrightarrow> start_page (compute_ranges es P ! i) = snd (es ! i)"
  by (simp add: compute_ranges_nth range_of_entry_def Let_def split: prod.splits)

lemma title_nth:
  "i < length es \<Longrightarrow> title (compute_ranges es P ! i) = fst (es ! i)"
  by (simp add: compute_ranges_nth range_of_entry_def Let_def split: prod.splits)

lemma end_page_nth:
  "i < length es \<Longrightarrow> end_page (compute_ranges es P ! i) =
     max (snd (es ! i)) (if i + 1 < length es then snd (es ! (i + 1)) - 1 else P)"
  by (simp add: compute_ranges_nth range_of_entry_def Let_def max_def split: prod.splits)

lemma start_le_end_nth:
  "i < length es \<Longrightarrow>
     start_page (compute_ranges es P ! i) \<le> end_page (compute_ranges es P ! i)"
  by (simp add: start_page_nth end_page_nth)

lemma contiguous_iff:
  "i + 1 < length es \<Longrightarrow>
     (end_page (compute_ranges es P ! i) + 1 = start_page (compute_ranges es P ! (i + 1)))
       = (snd (es ! i) < snd (es ! (i + 1)))"
  by (simp add: start_page_nth end_page_nth max_def)

lemma end_le_total_iff:
  "i < length es \<Longrightarrow>
     (end_page (compute_ranges es P ! i) \<le> P)
       = (snd (es ! i) \<le> P \<and> (i + 1 < length es \<longrightarrow> snd (es ! (i + 1)) \<le> P + 1))"
  by (auto simp add: end_page_nth max_def)

text \<open>
  Claim C1 (as amended). \<open>compute_ranges\<close> returns exactly one range per entry, and
  every range has \<open>start_page \<le> end_page\<close>. When the start pages of the entries are
  strictly increasing and none exceeds the total page count \<open>P\<close>, every range also has
  \<open>end_page \<le> P\<close> and consecutive ranges are contiguous:
  \<open>end_page\<close> of range \<open>i\<close> plus one is \<open>start_page\<close> of range \<open>i + 1\<close>.
\<close>

theorem compute_ranges_shape:
  "length (compute_ranges es P) = length es \<and>
   (\<forall>i < length es. start_page (compute_ranges es P ! i) \<le> end_page (compute_ranges es P ! i)) \<and>
   ((\<forall>i. i + 1 < length es \<longrightarrow> snd (es ! i) < snd (es ! (i + 1))) \<and>
    (\<forall>i < length es. snd (es ! i) \<le> P) \<longrightarrow>
      (\<forall>i < length es. end_page (compute_ranges es P ! i) \<le> P) \<and>
      (\<forall>i. i + 1 < length es \<longrightarrow>
         end_page (compute_ranges es P ! i) + 1 = start_page (compute_ranges es P ! (i + 1))))"
proof (intro conjI impI allI)
  show "length (compute_ranges es P) = length es"
    by (rule length_compute_ranges)
next
  fix i assume "i < length es"
  then show "start_page (compute_ranges es P ! i) \<le> end_page (compute_ranges es P ! i)"
    by (rule start_le_end_nth)
next
  fix i
  assume inc: "(\<forall>i. i + 1 < length es \<longrightarrow> snd (es ! i) < snd (es ! (i + 1))) \<and>
    (\<forall>i < length es. snd (es ! i) \<le> P)"
    and i: "i < length es"
  then have "i + 1 < length es \<longrightarrow> snd (es ! (i + 1)) \<le> P + 1"
    by fastforce
  with inc i show "end_page (compute_ranges es P ! i) \<le> P"
    by (simp add: end_le_total_iff)
next
  fix i
  assume inc: "(\<forall>i. i + 1 < length es \<longrightarrow> snd (es ! i) < snd (es ! (i + 1))) \<and>
    (\<forall>i < length es. snd (es ! i) \<le> P)"
    and i: "i + 1 < length es"
  then show "end_page (compute_ranges es P ! i) + 1 = start_page (compute_ranges es P ! (i + 1))"
    using contiguous_iff [of i es P] by simp
qed

text \<open>
  The theorem at the entries Intro 1, Bio 10, History 25 and 40 pages: three ranges,
  each inside the document, each ending one page before the next starts.
\<close>

theorem compute_ranges_shape_witness:
  "length (compute_ranges [(asc ''Intro'', 1), (asc ''Bio'', 10), (asc ''History'', 25)] 40) = 3 \<and>
   end_page (compute_ranges [(asc ''Intro'', 1), (asc ''Bio'', 10), (asc ''History'', 25)] 40 ! 2) \<le> 40 \<and>
   end_page (compute_ranges [(asc ''Intro'', 1), (asc ''Bio'', 10), (asc ''History'', 25)] 40 ! 0) + 1
     = start_page (compute_ranges [(asc ''Intro'', 1), (asc ''Bio'', 10), (asc ''History'', 25)] 40 ! 1) \<and>
   end_page (compute_ranges [(asc ''Intro'', 1), (asc ''Bio'', 10), (asc ''History'', 25)] 40 ! 1) + 1
     = start_page (compute_ranges [(asc ''Intro'', 1), (asc ''Bio'', 10), (asc ''History'', 25)] 40 ! 2)"
proof -
  let ?es = "[(asc ''Intro'', 1::int), (asc ''Bio'', 10), (asc ''History'', 25)]"
  have inc: "\<forall>i. i + 1 < length ?es \<longrightarrow> snd (?es ! i) < snd (?es ! (i + 1))"
    by (simp add: nth_Cons split: nat.splits)
  have bound: "\<forall>i < length ?es. snd (?es ! i) \<le> 40"
    by (simp add: nth_Cons split: nat.splits)
  from compute_ranges_shape [of ?es 40] inc bound
  have len: "length (compute_ranges ?es 40) = length ?es"
    and le: "\<forall>i < length ?es. end_page (compute_ranges ?es 40 ! i) \<le> 40"
    and con: "\<forall>i. i + 1 < length ?es \<longrightarrow>
        end_page (compute_ranges ?es 40 ! i) + 1 = start_page (compute_ranges ?es 40 ! (i + 1))"
    by blast+
  from le have "end_page (compute_ranges ?es 40 ! 2) \<le> 40" by simp
  moreover from con [rule_format, of 0]
  have "end_page (compute_ranges ?es 40 ! 0) + 1 = start_page (compute_ranges ?es 40 ! 1)"
    by simp
  moreover from con [rule_format, of 1]
  have "end_page (compute_ranges ?es 40 ! 1) + 1 = start_page (compute_ranges ?es 40 ! 2)"
    by (simp add: numeral_2_eq_2)
  ultimately show ?thesis using len by simp
qed

text \<open>
  The claim as stated fails. Two entries that share start page 5 give the ranges
  \<open>(5, 5)\<close> and \<open>(5, 40)\<close>, which are not contiguous (the clamp keeps the first end at
  5); and a single entry that starts on page 50 of a 40-page document gives the range
  \<open>(50, 50)\<close>, whose end is beyond the document.
\<close>

theorem compute_ranges_shape_counterexample:
  "\<not> (end_page (compute_ranges [(asc ''A'', 5), (asc ''B'', 5)] 40 ! 0) + 1
        = start_page (compute_ranges [(asc ''A'', 5), (asc ''B'', 5)] 40 ! 1)) \<and>
   \<not> (end_page (compute_ranges [(asc ''A'', 50)] 40 ! 0) \<le> 40)"
  by (simp add: compute_ranges_def range_of_entry_def)

text \<open>
  Claim C2. For every entry list and total page count: the range of entry \<open>i\<close> keeps
  the entry's title and start page; its end page is the next entry's start page minus
  one, or the total page count for the last entry, and when that value is below the
  start page the end page is the start page instead. The function is total (nothing
  raises), the empty list gives the empty list, and the entries Intro 1, Bio 10,
  History 25 with 40 pages give the ranges \<open>(1, 9)\<close>, \<open>(10, 24)\<close>, \<open>(25, 40)\<close>.
\<close>

theorem compute_ranges_ends:
  "compute_ranges [] P = [] \<and>
   (\<forall>i < length es.
      title (compute_ranges es P ! i) = fst (es ! i) \<and>
      start_page (compute_ranges es P ! i) = snd (es ! i) \<and>
      end_page (compute_ranges es P ! i) =
        (let computed = (if i + 1 < length es then snd (es ! (i + 1)) - 1 else P)
         in if computed < snd (es ! i) then snd (es ! i) else computed)) \<and>
   map (\<lambda>r. (start_page r, end_page r))
     (compute_ranges [(asc ''Intro'', 1), (asc ''Bio'', 10), (asc ''History'', 25)] 40)
     = [(1, 9), (10, 24), (25, 40)]"
proof (intro conjI allI impI)
  show "compute_ranges [] P = []"
    by (simp add: compute_ranges_def)
next
  fix i assume "i < length es"
  then show "title (compute_ranges es P ! i) = fst (es ! i)"
    by (rule title_nth)
next
  fix i assume "i < length es"
  then show "start_page (compute_ranges es P ! i) = snd (es ! i)"
    by (rule start_page_nth)
next
  fix i assume "i < length es"
  then show "end_page (compute_ranges es P ! i) =
        (let computed = (if i + 1 < length es then snd (es ! (i + 1)) - 1 else P)
         in if computed < snd (es ! i) then snd (es ! i) else computed)"
    by (simp add: end_page_nth max_def Let_def)
next
  show "map (\<lambda>r. (start_page r, end_page r))
     (compute_ranges [(asc ''Intro'', 1), (asc ''Bio'', 10), (asc ''History'', 25)] 40)
     = [(1, 9), (10, 24), (25, 40)]"
    by (simp add: compute_ranges_def range_of_entry_def)
qed

text \<open>
  The theorem at two entries that share start page 5, in a 40-page document: the
  computed end 4 of the first is clamped to 5, the last ends at 40.
\<close>

theorem compute_ranges_ends_witness:
  "end_page (compute_ranges [(asc ''A'', 5), (asc ''B'', 5)] 40 ! 0) = 5 \<and>
   end_page (compute_ranges [(asc ''A'', 5), (asc ''B'', 5)] 40 ! 1) = 40"
proof -
  let ?es = "[(asc ''A'', 5::int), (asc ''B'', 5)]"
  from compute_ranges_ends [of 40 ?es]
  have e: "\<forall>i < length ?es. end_page (compute_ranges ?es 40 ! i) =
        (let computed = (if i + 1 < length ?es then snd (?es ! (i + 1)) - 1 else 40)
         in if computed < snd (?es ! i) then snd (?es ! i) else computed)"
    by blast
  from e [rule_format, of 0] have "end_page (compute_ranges ?es 40 ! 0) = 5" by simp
  moreover from e [rule_format, of 1] have "end_page (compute_ranges ?es 40 ! 1) = 40" by simp
  ultimately show ?thesis by simp
qed

section \<open>Properties of blank-page detection\<close>

lemma pages_getitem_valid:
  "0 \<le> i \<Longrightarrow> i < int (length pages) \<Longrightarrow> pages_getitem pages i = Inr (pages ! nat i)"
  by (simp add: pages_getitem_def Let_def)

lemma pages_getitem_Inr_nonneg:
  "0 \<le> i \<Longrightarrow> pages_getitem pages i = Inr pg \<Longrightarrow> i < int (length pages) \<and> pg = pages ! nat i"
  by (simp add: pages_getitem_def Let_def split: if_splits)

lemma is_blank_page_valid:
  "0 \<le> i \<Longrightarrow> i < int (length reader) \<Longrightarrow>
   is_blank_page reader i =
     Inr (get_contents (reader ! nat i) = Returns None \<or>
          (case extract_text (reader ! nat i) of
             Raises \<Rightarrow> False
           | Returns t \<Rightarrow> strip (case t of None \<Rightarrow> [] | Some u \<Rightarrow> u) = []))"
  by (simp add: is_blank_page_def pages_getitem_valid Let_def
           split: outcome.splits option.splits)

lemma is_blank_page_total:
  "0 \<le> i \<Longrightarrow> i < int (length reader) \<Longrightarrow> \<exists>b. is_blank_page reader i = Inr b"
  by (simp add: is_blank_page_valid)

text \<open>
  Claim C4 (as amended). For every document and every page index inside it,
  \<open>is_blank_page\<close> returns without raising, and it returns true exactly when
  \<open>get_contents\<close> returns \<^verbatim>\<open>None\<close>, or text extraction succeeds and the extracted text
  is empty or whitespace-only. A failure of content access does not decide the answer:
  the text check decides then. A failure of text extraction gives false unless
  \<open>get_contents\<close> had already returned \<^verbatim>\<open>None\<close>.
\<close>

theorem is_blank_page_decides:
  assumes "0 \<le> i" and "i < int (length reader)"
  shows "is_blank_page reader i =
     Inr (get_contents (reader ! nat i) = Returns None \<or>
          (case extract_text (reader ! nat i) of
             Raises \<Rightarrow> False
           | Returns t \<Rightarrow> strip (case t of None \<Rightarrow> [] | Some u \<Rightarrow> u) = []))"
  using assms by (rule is_blank_page_valid)

text \<open>
  The theorem on a two-page document: page 0 has a content stream and its text
  extraction fails (not blank); page 1 has a content stream and the text of a single
  space (blank).
\<close>

theorem is_blank_page_decides_witness:
  "is_blank_page
     [\<lparr>page_obj = 7, get_contents = Returns (Some ()), extract_text = Raises\<rparr>,
      \<lparr>page_obj = 8, get_contents = Returns (Some ()), extract_text = Returns (Some (asc '' ''))\<rparr>] 0
     = Inr False \<and>
   is_blank_page
     [\<lparr>page_obj = 7, get_contents = Returns (Some ()), extract_text = Raises\<rparr>,
      \<lparr>page_obj = 8, get_contents = Returns (Some ()), extract_text = Returns (Some (asc '' ''))\<rparr>] 1
     = Inr True"
proof -
  let ?r = "[\<lparr>page_obj = 7, get_contents = Returns (Some ()), extract_text = Raises\<rparr>,
      \<lparr>page_obj = 8, get_contents = Returns (Some ()), extract_text = Returns (Some (asc '' ''))\<rparr>]"
  have "is_blank_page ?r 0 = Inr False"
    using is_blank_page_decides [of 0 ?r] by simp
  moreover have "is_blank_page ?r 1 = Inr True"
    using is_blank_page_decides [of 1 ?r] by (simp add: strip_def asc_def py_isspace_def)
  ultimately show ?thesis by simp
qed

text \<open>
  The claim as stated fails where it says that any failure of content access makes the
  result false: for a page whose \<open>get_contents\<close> raises and whose extracted text is
  empty, \<open>is_blank_page\<close> returns true.
\<close>

theorem is_blank_page_decides_counterexample:
  "get_contents \<lparr>page_obj = 7, get_contents = Raises, extract_text = Returns (Some [])\<rparr> = Raises \<and>
   is_blank_page [\<lparr>page_obj = 7, get_contents = Raises, extract_text = Returns (Some [])\<rparr>] 0
     = Inr True"
  by (simp add: is_blank_page_def pages_getitem_def strip_def)

section \<open>Properties of the splitter\<close>

lemma add_pages_valid:
  "\<forall>p \<in> set ps. 0 \<le> p \<and> p < int (length reader) \<Longrightarrow>
     add_pages reader ps w = Inr (w @ map (\<lambda>p. reader ! nat p) ps)"
  by (induction ps arbitrary: w) (simp_all add: pages_getitem_valid)

lemma add_pages_Inr_nonneg:
  "\<forall>p \<in> set ps. 0 \<le> p \<Longrightarrow> add_pages reader ps w = Inr out \<Longrightarrow>
     (\<forall>p \<in> set ps. p < int (length reader)) \<and> out = w @ map (\<lambda>p. reader ! nat p) ps"
proof (induction ps arbitrary: w)
  case Nil
  then show ?case by simp
next
  case (Cons p ps)
  from Cons.prems obtain pg where pg: "pages_getitem reader p = Inr pg"
    and rest: "add_pages reader ps (w @ [pg]) = Inr out"
    by (auto split: sum.splits)
  from Cons.prems(1) pg have "p < int (length reader)" "pg = reader ! nat p"
    using pages_getitem_Inr_nonneg [of p reader pg] by simp_all
  moreover from Cons.IH [OF _ rest] Cons.prems(1)
  have "(\<forall>p \<in> set ps. p < int (length reader))" "out = (w @ [pg]) @ map (\<lambda>p. reader ! nat p) ps"
    by simp_all
  ultimately show ?case by simp
qed

lemma last_page_to_include_eq:
  "is_blank_page reader (end_page info - 1) = Inr blank \<Longrightarrow>
     last_page_to_include reader info =
       Inr (if blank then max (start_page info - 1) (end_page info - 2) else end_page info - 1)"
  by (simp add: last_page_to_include_def Let_def)

lemma last_page_to_include_Inr:
  assumes "last_page_to_include reader info = Inr l"
  shows "\<exists>blank. is_blank_page reader (end_page info - 1) = Inr blank \<and>
       l = (if blank then max (start_page info - 1) (end_page info - 2) else end_page info - 1)"
proof (cases "is_blank_page reader (end_page info - 1)")
  case (Inl e)
  with assms show ?thesis
    by (simp add: last_page_to_include_def)
next
  case (Inr blank)
  from last_page_to_include_eq [OF Inr] assms
  have "l = (if blank then max (start_page info - 1) (end_page info - 2) else end_page info - 1)"
    by simp
  with Inr show ?thesis by blast
qed

lemma build_writer_Inr:
  assumes "1 \<le> start_page info" and "build_writer reader info = Inr ps"
  shows "\<exists>l. last_page_to_include reader info = Inr l \<and>
           (\<forall>p \<in> set [start_page info - 1..l]. 0 \<le> p \<and> p < int (length reader)) \<and>
           ps = map (\<lambda>p. reader ! nat p) [start_page info - 1..l]"
proof -
  from assms(2) obtain l where l: "last_page_to_include reader info = Inr l"
    and ap: "add_pages reader [start_page info - 1..l] [] = Inr ps"
    by (auto simp add: build_writer_def split: sum.splits)
  have nonneg: "\<forall>p \<in> set [start_page info - 1..l]. 0 \<le> p"
    using assms(1) by simp
  from add_pages_Inr_nonneg [OF nonneg ap] nonneg l show ?thesis
    by auto
qed

lemma build_writer_valid:
  assumes "1 \<le> start_page info" and "start_page info \<le> end_page info"
    and "end_page info \<le> int (length reader)"
  shows "\<exists>blank. is_blank_page reader (end_page info - 1) = Inr blank \<and>
     build_writer reader info =
       Inr (map (\<lambda>p. reader ! nat p)
              [start_page info - 1..
                 (if blank \<and> start_page info < end_page info then end_page info - 2
                  else end_page info - 1)])"
proof -
  from assms obtain blank where b: "is_blank_page reader (end_page info - 1) = Inr blank"
    using is_blank_page_total [of "end_page info - 1" reader] by auto
  define l where "l = (if blank \<and> start_page info < end_page info then end_page info - 2
                  else end_page info - 1)"
  have "(if blank then max (start_page info - 1) (end_page info - 2) else end_page info - 1) = l"
    using assms(2) by (simp add: max_def l_def)
  with last_page_to_include_eq [OF b]
  have l: "last_page_to_include reader info = Inr l"
    by simp
  have "l \<le> end_page info - 1"
    by (simp add: l_def)
  with assms have "\<forall>p \<in> set [start_page info - 1..l]. 0 \<le> p \<and> p < int (length reader)"
    by auto
  then have "add_pages reader [start_page info - 1..l] [] =
      Inr ([] @ map (\<lambda>p. reader ! nat p) [start_page info - 1..l])"
    by (rule add_pages_valid)
  then have "build_writer reader info = Inr (map (\<lambda>p. reader ! nat p) [start_page info - 1..l])"
    using l by (simp add: build_writer_def)
  with b show ?thesis unfolding l_def by blast
qed

lemma butlast_upto: "a \<le> b \<Longrightarrow> butlast [a..b] = [a..b - 1]"
  by (simp add: upto_rec2 [of a b])

text \<open>
  Claim C3 (as amended). Only the page at \<open>end_page\<close> is tested for blankness, and at
  most that page is dropped. For every range with \<open>start_page \<le> end_page\<close> the last
  copied page index is \<open>end_page - 1\<close> or one less and never below \<open>start_page - 1\<close>.
  For such a range inside the document the chapter is written, it has at least one
  page, and its pages are the pages of the range, without the last one exactly when
  that page is blank and the range has more than one page: then the chapter has one
  page fewer than the range. A one-page range is written with its page even when the
  page is blank.
\<close>

theorem last_page_trimming:
  assumes "start_page info \<le> end_page info"
  shows "(\<forall>l. last_page_to_include reader info = Inr l \<longrightarrow>
            start_page info - 1 \<le> l \<and> end_page info - 2 \<le> l \<and> l \<le> end_page info - 1) \<and>
         (1 \<le> start_page info \<and> end_page info \<le> int (length reader) \<longrightarrow>
            (\<exists>blank ps.
               is_blank_page reader (end_page info - 1) = Inr blank \<and>
               build_writer reader info = Inr ps \<and>
               ps = (if blank \<and> start_page info < end_page info
                     then butlast (map (\<lambda>p. reader ! nat p) [start_page info - 1..end_page info - 1])
                     else map (\<lambda>p. reader ! nat p) [start_page info - 1..end_page info - 1]) \<and>
               1 \<le> length ps \<and>
               int (length ps) = (if blank \<and> start_page info < end_page info
                                  then end_page info - start_page info
                                  else end_page info - start_page info + 1)))"
proof (intro conjI allI impI)
  fix l assume "last_page_to_include reader info = Inr l"
  from last_page_to_include_Inr [OF this] obtain blank where
    l: "l = (if blank then max (start_page info - 1) (end_page info - 2) else end_page info - 1)"
    by blast
  with assms show "start_page info - 1 \<le> l" by (simp add: max_def)
  from l assms show "end_page info - 2 \<le> l" by (simp add: max_def)
  from l assms show "l \<le> end_page info - 1" by (simp add: max_def)
next
  assume valid: "1 \<le> start_page info \<and> end_page info \<le> int (length reader)"
  with assms build_writer_valid [of info reader] obtain blank where
    b: "is_blank_page reader (end_page info - 1) = Inr blank" and
    w: "build_writer reader info =
       Inr (map (\<lambda>p. reader ! nat p)
              [start_page info - 1..
                 (if blank \<and> start_page info < end_page info then end_page info - 2
                  else end_page info - 1)])"
    by blast
  let ?raw = "map (\<lambda>p. reader ! nat p) [start_page info - 1..end_page info - 1]"
  let ?ps = "map (\<lambda>p. reader ! nat p)
              [start_page info - 1..
                 (if blank \<and> start_page info < end_page info then end_page info - 2
                  else end_page info - 1)]"
  have "butlast [start_page info - 1..end_page info - 1] = [start_page info - 1..end_page info - 2]"
    using assms butlast_upto [of "start_page info - 1" "end_page info - 1"] by simp
  then have "butlast ?raw = map (\<lambda>p. reader ! nat p) [start_page info - 1..end_page info - 2]"
    by (simp add: map_butlast [symmetric])
  then have shape: "?ps = (if blank \<and> start_page info < end_page info then butlast ?raw else ?raw)"
    by simp
  have len: "int (length ?ps) = (if blank \<and> start_page info < end_page info
                                  then end_page info - start_page info
                                  else end_page info - start_page info + 1)"
    using assms by simp
  with assms have pos: "1 \<le> length ?ps"
    by (simp split: if_splits)
  from b w shape len pos
  show "\<exists>blank ps.
               is_blank_page reader (end_page info - 1) = Inr blank \<and>
               build_writer reader info = Inr ps \<and>
               ps = (if blank \<and> start_page info < end_page info
                     then butlast ?raw else ?raw) \<and>
               1 \<le> length ps \<and>
               int (length ps) = (if blank \<and> start_page info < end_page info
                                  then end_page info - start_page info
                                  else end_page info - start_page info + 1)"
    by blast
qed

text \<open>
  The theorem on a three-page document whose third page holds a single space: the
  range \<open>(1, 3)\<close> is written with pages 1 and 2.
\<close>

theorem last_page_trimming_witness:
  "is_blank_page [text_page 1 ''a'', text_page 2 ''b'', text_page 3 '' ''] 2 = Inr True \<and>
   build_writer [text_page 1 ''a'', text_page 2 ''b'', text_page 3 '' '']
     \<lparr>title = asc ''A'', start_page = 1, end_page = 3\<rparr>
     = Inr [text_page 1 ''a'', text_page 2 ''b'']"
proof -
  let ?doc = "[text_page 1 ''a'', text_page 2 ''b'', text_page 3 '' '']"
  let ?r = "\<lparr>title = asc ''A'', start_page = 1, end_page = 3\<rparr>"
  have b: "is_blank_page ?doc 2 = Inr True"
    by (simp add: is_blank_page_def pages_getitem_def text_page_def strip_def asc_def
        py_isspace_def)
  have raw: "map (\<lambda>p. ?doc ! nat p) [0..2] = ?doc"
    by (simp add: upto.simps)
  from last_page_trimming [of ?r ?doc] obtain blank ps where
    "is_blank_page ?doc 2 = Inr blank" and "build_writer ?doc ?r = Inr ps" and
    "ps = (if blank then butlast (map (\<lambda>p. ?doc ! nat p) [0..2])
           else map (\<lambda>p. ?doc ! nat p) [0..2])"
    by auto
  with b raw have "build_writer ?doc ?r = Inr [text_page 1 ''a'', text_page 2 ''b'']"
    by simp
  with b show ?thesis by simp
qed

text \<open>
  The claim as stated fails where it says that a blank last page always makes the
  chapter one page shorter than the range: for the range \<open>(1, 1)\<close> of a document whose
  only page is blank, the range has one page and the chapter is written with that one
  page, not with none.
\<close>

theorem last_page_trimming_counterexample:
  "is_blank_page [text_page 1 '' '']
     (end_page \<lparr>title = asc ''A'', start_page = 1, end_page = 1\<rparr> - 1) = Inr True \<and>
   build_writer [text_page 1 '' ''] \<lparr>title = asc ''A'', start_page = 1, end_page = 1\<rparr>
     = Inr [text_page 1 '' '']"
  by (simp add: build_writer_def last_page_to_include_def is_blank_page_def pages_getitem_def
      text_page_def strip_def asc_def py_isspace_def upto.simps)

lemma build_writer_valid_eq:
  assumes "1 \<le> start_page info" and "start_page info \<le> end_page info"
    and "end_page info \<le> int (length reader)"
  shows "build_writer reader info =
       Inr (map (\<lambda>p. reader ! nat p)
              [start_page info - 1..
                 (if is_blank_page reader (end_page info - 1) = Inr True \<and>
                     start_page info < end_page info
                  then end_page info - 2 else end_page info - 1)])"
proof -
  from build_writer_valid [OF assms] obtain blank where
    b: "is_blank_page reader (end_page info - 1) = Inr blank" and
    w: "build_writer reader info =
       Inr (map (\<lambda>p. reader ! nat p)
              [start_page info - 1..
                 (if blank \<and> start_page info < end_page info then end_page info - 2
                  else end_page info - 1)])"
    by blast
  from b have "(is_blank_page reader (end_page info - 1) = Inr True) = blank"
    by simp
  with w show ?thesis by simp
qed

section \<open>Properties of the filename resolver\<close>

lemma set_strip: "set (strip s) \<subseteq> set s"
  by (auto simp add: strip_def dest!: set_dropWhileD)

lemma strip_fix:
  assumes "s \<noteq> []" and "\<not> py_isspace (hd s)" and "\<not> py_isspace (last s)"
  shows "strip s = s"
proof -
  from assms have "dropWhile py_isspace s = s"
    by (simp add: dropWhile_eq_self_iff)
  moreover from assms have "dropWhile py_isspace (rev s) = rev s"
    by (simp add: dropWhile_eq_self_iff hd_rev)
  ultimately show ?thesis
    by (simp add: strip_def)
qed

lemma strip_Nil: "strip [] = []"
  by (simp add: strip_def)

lemma strip_prefix: "dropWhile py_isspace s = strip s @ rev (takeWhile py_isspace (rev (dropWhile py_isspace s)))"
proof -
  let ?u = "dropWhile py_isspace s"
  have "rev (dropWhile py_isspace (rev ?u)) @ rev (takeWhile py_isspace (rev ?u))
      = rev (takeWhile py_isspace (rev ?u) @ dropWhile py_isspace (rev ?u))"
    by (simp only: rev_append)
  also have "\<dots> = rev (rev ?u)"
    by (simp only: takeWhile_dropWhile_id)
  also have "\<dots> = ?u"
    by simp
  finally show ?thesis
    by (simp only: strip_def)
qed

lemma strip_ends:
  assumes "strip s \<noteq> []"
  shows "\<not> py_isspace (hd (strip s)) \<and> \<not> py_isspace (last (strip s))"
proof
  let ?u = "dropWhile py_isspace s"
  have u: "?u \<noteq> []"
  proof
    assume "?u = []"
    then have "strip s = []" by (simp only: strip_def rev.simps dropWhile.simps)
    with assms show False by simp
  qed
  from assms strip_prefix [of s] have "hd ?u = hd (strip s)"
    by (metis hd_append2)
  with hd_dropWhile [OF u] show "\<not> py_isspace (hd (strip s))" by simp
  from assms have "dropWhile py_isspace (rev ?u) \<noteq> []"
    by (simp add: strip_def)
  from hd_dropWhile [OF this] show "\<not> py_isspace (last (strip s))"
    by (simp add: strip_def last_rev)
qed

lemma strip_idem: "strip (strip s) = strip s"
proof (cases "strip s = []")
  case True
  then show ?thesis by (simp add: strip_Nil)
next
  case False
  with strip_ends [OF False] show ?thesis by (simp add: strip_fix)
qed

lemma re_sub_class_none: "\<forall>c \<in> set s. \<not> P c \<Longrightarrow> re_sub_class P r s = s"
  by (induction s) simp_all

lemma set_re_sub_class: "set (re_sub_class P r s) \<subseteq> {c \<in> set s. \<not> P c} \<union> set r"
proof (induction P r s rule: re_sub_class.induct)
  case (1 P repl)
  then show ?case by simp
next
  case (2 P repl c cs)
  show ?case
  proof (cases "P c")
    case True
    with 2 have "set (re_sub_class P repl (dropWhile P cs))
        \<subseteq> {c \<in> set (dropWhile P cs). \<not> P c} \<union> set repl"
      by simp
    moreover have "set (dropWhile P cs) \<subseteq> set cs"
      by (auto dest: set_dropWhileD)
    ultimately show ?thesis using True by auto
  next
    case False
    with 2 show ?thesis by auto
  qed
qed

lemma re_sub_class_append_left:
  "\<forall>c \<in> set a. \<not> P c \<Longrightarrow> re_sub_class P r (a @ s) = a @ re_sub_class P r s"
  by (induction a) simp_all

lemma re_sub_class_append_right:
  "b \<noteq> [] \<Longrightarrow> \<not> P (hd b) \<Longrightarrow>
     re_sub_class P r (s @ b) = re_sub_class P r s @ re_sub_class P r b"
proof (induction P r s rule: re_sub_class.induct)
  case (1 P repl)
  then show ?case by simp
next
  case (2 P repl c cs)
  show ?case
  proof (cases "P c")
    case True
    have dw: "dropWhile P (cs @ b) = dropWhile P cs @ b"
      using "2.prems" by (cases b) (auto simp add: dropWhile_append)
    from "2.IH"(1) [OF True "2.prems"] True dw show ?thesis by simp
  next
    case False
    from "2.IH"(2) [OF False "2.prems"] False show ?thesis by simp
  qed
qed

lemma re_sub_class_hd:
  "s \<noteq> [] \<Longrightarrow> \<not> P (hd s) \<Longrightarrow> re_sub_class P r s \<noteq> [] \<and> hd (re_sub_class P r s) = hd s"
  by (cases s) simp_all

lemma successively_dropWhile: "successively R xs \<Longrightarrow> successively R (dropWhile P xs)"
  using successively_append_iff [of R "takeWhile P xs" "dropWhile P xs"] by simp

lemma successively_strip:
  "successively (\<lambda>a b. \<not> (P a \<and> P b)) s \<Longrightarrow> successively (\<lambda>a b. \<not> (P a \<and> P b)) (strip s)"
proof -
  assume s: "successively (\<lambda>a b. \<not> (P a \<and> P b)) s"
  have sym: "successively (\<lambda>a b. \<not> (P a \<and> P b)) (rev xs) = successively (\<lambda>a b. \<not> (P a \<and> P b)) xs"
    for xs
  proof -
    have "(\<lambda>x y. \<not> (P y \<and> P x)) = (\<lambda>a b. \<not> (P a \<and> P b))"
      by (intro ext) auto
    then show ?thesis
      by (simp only: successively_rev)
  qed
  from s have "successively (\<lambda>a b. \<not> (P a \<and> P b)) (dropWhile py_isspace s)"
    by (rule successively_dropWhile)
  then have "successively (\<lambda>a b. \<not> (P a \<and> P b)) (rev (dropWhile py_isspace s))"
    by (simp only: sym)
  then have "successively (\<lambda>a b. \<not> (P a \<and> P b)) (dropWhile py_isspace (rev (dropWhile py_isspace s)))"
    by (rule successively_dropWhile)
  then show ?thesis
    by (simp only: strip_def sym)
qed

text \<open>
  After runs of class characters are replaced by one character \<open>c0\<close>, no two class
  characters are adjacent; and a string without adjacent class characters, whose class
  characters are all \<open>c0\<close>, is left as it is.
\<close>

lemma collapsed_re_sub_class:
  "successively (\<lambda>a b. \<not> (P a \<and> P b)) (re_sub_class P [c0] s)"
proof (induction P "[c0]" s rule: re_sub_class.induct)
  case (1 P)
  then show ?case by simp
next
  case (2 P c cs)
  show ?case
  proof (cases "P c")
    case True
    let ?d = "dropWhile P cs"
    have ih: "successively (\<lambda>a b. \<not> (P a \<and> P b)) (re_sub_class P [c0] ?d)"
      using 2 True by simp
    have "re_sub_class P [c0] ?d = [] \<or> \<not> P (hd (re_sub_class P [c0] ?d))"
    proof (cases "?d = []")
      case True
      have "re_sub_class P [c0] [] = []" by simp
      with True show ?thesis by (simp only: simp_thms)
    next
      case False
      from hd_dropWhile [OF False] re_sub_class_hd [OF False, of P "[c0]"]
      show ?thesis by simp
    qed
    with ih True show ?thesis
      by (auto simp add: successively_Cons)
  next
    case False
    with 2 show ?thesis by (simp add: successively_Cons)
  qed
qed

lemma re_sub_class_collapsed:
  "successively (\<lambda>a b. \<not> (P a \<and> P b)) s \<Longrightarrow> \<forall>c \<in> set s. P c \<longrightarrow> c = c0 \<Longrightarrow>
     re_sub_class P [c0] s = s"
proof (induction P "[c0]" s rule: re_sub_class.induct)
  case (1 P)
  then show ?case by simp
next
  case (2 P c cs)
  from "2.prems"(1) have tl: "successively (\<lambda>a b. \<not> (P a \<and> P b)) cs"
    by (auto simp add: successively_Cons)
  show ?case
  proof (cases "P c")
    case True
    with "2.prems" have "cs = [] \<or> \<not> P (hd cs)" and c: "c = c0"
      by (auto simp add: successively_Cons)
    then have d: "dropWhile P cs = cs"
      by (simp add: dropWhile_eq_self_iff)
    from "2.hyps"(1) [OF True] tl "2.prems"(2) d have "re_sub_class P [c0] cs = cs"
      by simp
    with True d c show ?thesis by simp
  next
    case False
    from "2.hyps"(2) [OF False tl] "2.prems"(2) False show ?thesis by simp
  qed
qed

lemma is_kept_not_sep: "is_kept U c \<Longrightarrow> c \<noteq> 47 \<and> c \<noteq> 92"
  by (auto simp add: is_kept_def is_word_def py_isalnum_def)

lemma set_sanitize_filename: "c \<in> set (sanitize_filename U s) \<Longrightarrow> is_kept U c"
proof -
  let ?n3 = "re_sub_class (\<lambda>c. \<not> is_kept U c) [] (re_sub_class is_sep (asc ''-'') (strip s))"
  assume "c \<in> set (sanitize_filename U s)"
  then have "c \<in> set (re_sub_class py_isspace (asc '' '') ?n3)"
    using set_strip by (auto simp add: sanitize_filename_def Let_def)
  then have "c \<in> set ?n3 \<or> c = 32"
    using set_re_sub_class [of py_isspace "asc '' ''" ?n3] by (auto simp add: asc_def)
  moreover have "set ?n3 \<subseteq> {c. is_kept U c}"
    using set_re_sub_class [of "\<lambda>c. \<not> is_kept U c" "[]"] by auto
  ultimately show "is_kept U c"
    by (auto simp add: is_kept_def)
qed

lemma digits_chars: "\<forall>c \<in> set (digits n). 48 \<le> c \<and> c \<le> 57"
proof (induction n rule: digits.induct)
  case (1 n)
  show ?case
  proof (cases "n < 10")
    case True
    then show ?thesis by (simp add: digits.simps [of n])
  next
    case False
    have "n mod 10 < 10" by simp
    then have "48 + n mod 10 \<le> 57" by linarith
    with False 1 show ?thesis by (simp add: digits.simps [of n])
  qed
qed

lemma digits_nonempty: "digits n \<noteq> []"
  by (simp add: digits.simps [of n])

lemma fmt02d_chars: "\<forall>c \<in> set (fmt02d n). 48 \<le> c \<and> c \<le> 57"
  using digits_chars [of n] by (auto simp add: fmt02d_def Let_def)

lemma fmt02d_nonempty: "fmt02d n \<noteq> []"
  by (simp add: fmt02d_def Let_def digits_nonempty)

lemma digit_classes:
  "48 \<le> c \<and> c \<le> 57 \<Longrightarrow> is_kept U c \<and> \<not> is_sep c \<and> \<not> py_isspace c"
  by (auto simp add: is_kept_def is_word_def py_isalnum_def is_sep_def py_isspace_def)

lemma re_sub_class_frame:
  assumes "\<forall>c \<in> set pre. \<not> P c" and "suf \<noteq> []" and "\<forall>c \<in> set suf. \<not> P c"
  shows "re_sub_class P r (pre @ t @ suf) = pre @ re_sub_class P r t @ suf"
proof -
  from assms(2,3) have "\<not> P (hd suf)" by simp
  with assms(2) have "re_sub_class P r (t @ suf) = re_sub_class P r t @ re_sub_class P r suf"
    by (rule re_sub_class_append_right)
  moreover from assms(3) have "re_sub_class P r suf = suf"
    by (rule re_sub_class_none)
  ultimately show ?thesis
    using assms(1) by (simp add: re_sub_class_append_left)
qed

text \<open>
  The derived name: the index digits and the hyphen in front and the extension behind
  are untouched by every step of \<open>sanitize_filename\<close>, and both calls of \<open>strip\<close>
  leave the string as it is, because it starts with a digit and ends with a letter.
\<close>

lemma sanitize_filename_derived:
  "sanitize_filename U (fmt02d n @ asc ''-'' @ t @ asc ''.pdf'') =
     fmt02d n @ asc ''-'' @
       re_sub_class py_isspace (asc '' '')
         (re_sub_class (\<lambda>c. \<not> is_kept U c) []
            (re_sub_class is_sep (asc ''-'') t)) @
       asc ''.pdf''"
proof -
  let ?pre = "fmt02d n @ asc ''-''"
  let ?suf = "asc ''.pdf''"
  have suf: "?suf = [46, 112, 100, 102]" and hyphen: "asc ''-'' = [45]"
    by (simp_all add: asc_def)
  have pre_chars: "\<forall>c \<in> set ?pre. is_kept U c \<and> \<not> is_sep c \<and> \<not> py_isspace c"
    using fmt02d_chars [of n] digit_classes [of _ U]
    by (auto simp add: hyphen is_kept_def is_sep_def py_isspace_def)
  have suf_chars: "\<forall>c \<in> set ?suf. is_kept U c \<and> \<not> is_sep c \<and> \<not> py_isspace c"
    by (simp add: suf is_kept_def is_word_def py_isalnum_def is_sep_def py_isspace_def)
  have suf_ne: "?suf \<noteq> []"
    by (simp add: suf)
  have ends: "strip (?pre @ x @ ?suf) = ?pre @ x @ ?suf" for x
  proof (rule strip_fix)
    show "?pre @ x @ ?suf \<noteq> []" by (simp add: suf)
    have "hd (?pre @ x @ ?suf) = hd (fmt02d n)"
      using fmt02d_nonempty [of n] by simp
    moreover have "hd (fmt02d n) \<in> set (fmt02d n)"
      using fmt02d_nonempty [of n] by simp
    ultimately show "\<not> py_isspace (hd (?pre @ x @ ?suf))"
      using fmt02d_chars [of n] digit_classes [of _ U] by auto
    show "\<not> py_isspace (last (?pre @ x @ ?suf))"
      by (simp add: suf py_isspace_def)
  qed
  have frame: "re_sub_class P r (?pre @ x @ ?suf) = ?pre @ re_sub_class P r x @ ?suf"
    if "\<forall>c \<in> set ?pre. \<not> P c" and "\<forall>c \<in> set ?suf. \<not> P c" for P r x
    using that(1) suf_ne that(2) by (rule re_sub_class_frame)
  have f1: "re_sub_class is_sep r (?pre @ x @ ?suf) = ?pre @ re_sub_class is_sep r x @ ?suf" for r x
    using pre_chars suf_chars by (intro frame) blast+
  have f2: "re_sub_class (\<lambda>c. \<not> is_kept U c) r (?pre @ x @ ?suf)
      = ?pre @ re_sub_class (\<lambda>c. \<not> is_kept U c) r x @ ?suf" for r x
    using pre_chars suf_chars by (intro frame) blast+
  have f3: "re_sub_class py_isspace r (?pre @ x @ ?suf)
      = ?pre @ re_sub_class py_isspace r x @ ?suf" for r x
    using pre_chars suf_chars by (intro frame) blast+
  have "sanitize_filename U (?pre @ t @ ?suf) =
     ?pre @ re_sub_class py_isspace (asc '' '')
         (re_sub_class (\<lambda>c. \<not> is_kept U c) []
            (re_sub_class is_sep (asc ''-'') t)) @ ?suf"
    by (simp only: sanitize_filename_def Let_def ends f1 f2 f3)
  then show ?thesis by simp
qed

lemma chapter_names_chars:
  "\<forall>n \<in> set chapter_names. (\<forall>c \<in> set n. c \<noteq> 47 \<and> c \<noteq> 92) \<and> n \<noteq> asc ''.'' \<and> n \<noteq> asc ''..''"
  by (simp add: chapter_names_def asc_def)

text \<open>
  Claim C6. For every input string, every character of the sanitized name is in the
  class word character, hyphen, dot or space, and none is a slash (47) or a backslash
  (92). Every output name of the resolver, predefined or derived, is free of both
  separators and is neither \<^verbatim>\<open>.\<close> nor \<^verbatim>\<open>..\<close>, so it names a file inside the
  output directory.
\<close>

theorem sanitize_filename_safe:
  "(\<forall>c \<in> set (sanitize_filename U s). is_kept U c \<and> c \<noteq> 47 \<and> c \<noteq> 92) \<and>
   (\<forall>c \<in> set (resolve_filename U use_chapter_names i info). c \<noteq> 47 \<and> c \<noteq> 92) \<and>
   resolve_filename U use_chapter_names i info \<noteq> asc ''.'' \<and>
   resolve_filename U use_chapter_names i info \<noteq> asc ''..''"
proof -
  have kept: "\<forall>c \<in> set (sanitize_filename U x). is_kept U c \<and> c \<noteq> 47 \<and> c \<noteq> 92" for x
    using set_sanitize_filename [of _ U x] is_kept_not_sep [of U] by blast
  show ?thesis
  proof (cases "use_chapter_names \<and> i < length chapter_names")
    case True
    then have r: "resolve_filename U use_chapter_names i info = chapter_names ! i"
      by (simp add: resolve_filename_def)
    from True have "chapter_names ! i \<in> set chapter_names"
      by simp
    with chapter_names_chars r kept [of s] show ?thesis
      by (simp only:) blast
  next
    case False
    then have r: "resolve_filename U use_chapter_names i info =
        sanitize_filename U (fmt02d (i + 1) @ asc ''-'' @ title info @ asc ''.pdf'')"
      by (auto simp add: resolve_filename_def)
    have "hd (resolve_filename U use_chapter_names i info) = hd (fmt02d (i + 1))"
      using fmt02d_nonempty [of "i + 1"] by (simp add: r sanitize_filename_derived)
    moreover have "hd (fmt02d (i + 1)) \<in> set (fmt02d (i + 1))"
      using fmt02d_nonempty [of "i + 1"] by simp
    ultimately have "48 \<le> hd (resolve_filename U use_chapter_names i info)"
      using fmt02d_chars [of "i + 1"] by simp
    then have "resolve_filename U use_chapter_names i info \<noteq> asc ''.''"
      "resolve_filename U use_chapter_names i info \<noteq> asc ''..''"
      by (auto simp add: asc_def)
    with kept [of s] kept [of "fmt02d (i + 1) @ asc ''-'' @ title info @ asc ''.pdf''"] r
    show ?thesis by (simp only:) blast
  qed
qed

text \<open>
  The theorem at the input \<^verbatim>\<open>../a b\<close>: the result is \<^verbatim>\<open>..-a b\<close>, without a slash.
\<close>

theorem sanitize_filename_safe_witness:
  "sanitize_filename (\<lambda>c. False) (asc ''../a b'') = asc ''..-a b'' \<and>
   47 \<notin> set (sanitize_filename (\<lambda>c. False) (asc ''../a b''))"
proof -
  have "\<forall>c \<in> set (sanitize_filename (\<lambda>c. False) (asc ''../a b'')).
          is_kept (\<lambda>c. False) c \<and> c \<noteq> 47 \<and> c \<noteq> 92"
    using sanitize_filename_safe [of "\<lambda>c. False" "asc ''../a b''" True 0 "\<lparr>title = [], start_page = 1, end_page = 1\<rparr>"]
    by blast
  then have "47 \<notin> set (sanitize_filename (\<lambda>c. False) (asc ''../a b''))"
    by blast
  moreover have "sanitize_filename (\<lambda>c. False) (asc ''../a b'') = asc ''..-a b''"
    by (simp add: sanitize_filename_def strip_def asc_def is_sep_def is_kept_def is_word_def
        py_isalnum_def py_isspace_def)
  ultimately show ?thesis by simp
qed

text \<open>
  Claim C7. For every chapter index \<open>i\<close>: when predefined names are enabled and
  \<open>chapter_names\<close> has an entry at position \<open>i\<close>, the output name is that entry.
  Otherwise it is the 1-based index in at least two digits, a hyphen, the title with
  every run of slashes and backslashes replaced by one hyphen, every character outside
  word character, hyphen, dot and space removed and every run of whitespace replaced
  by one space, and the extension \<^verbatim>\<open>.pdf\<close>.
\<close>

theorem resolve_filename_cases:
  "resolve_filename U use_chapter_names i info =
     (if use_chapter_names \<and> i < length chapter_names then chapter_names ! i
      else fmt02d (i + 1) @ asc ''-'' @
             re_sub_class py_isspace (asc '' '')
               (re_sub_class (\<lambda>c. \<not> is_kept U c) []
                  (re_sub_class is_sep (asc ''-'') (title info))) @
             asc ''.pdf'')"
  by (simp only: resolve_filename_def sanitize_filename_derived)

text \<open>
  The theorem for the title \<^verbatim>\<open>Hi /there?\<close>: at index 1 with predefined names, at
  index 1 without them, and at index 7, beyond the predefined names.
\<close>

theorem resolve_filename_cases_witness:
  "resolve_filename (\<lambda>c. False) True 1 \<lparr>title = asc ''Hi /there?'', start_page = 1, end_page = 2\<rparr>
     = asc ''02-history.pdf'' \<and>
   resolve_filename (\<lambda>c. False) False 1 \<lparr>title = asc ''Hi /there?'', start_page = 1, end_page = 2\<rparr>
     = asc ''02-Hi -there.pdf'' \<and>
   resolve_filename (\<lambda>c. False) True 7 \<lparr>title = asc ''Hi /there?'', start_page = 1, end_page = 2\<rparr>
     = asc ''08-Hi -there.pdf''"
proof -
  let ?r = "\<lparr>title = asc ''Hi /there?'', start_page = 1, end_page = 2\<rparr>"
  have "resolve_filename (\<lambda>c. False) True 1 ?r = asc ''02-history.pdf''"
    using resolve_filename_cases [of "\<lambda>c. False" True 1 ?r]
    by (simp add: chapter_names_def)
  moreover have "resolve_filename (\<lambda>c. False) False 1 ?r = asc ''02-Hi -there.pdf''"
    using resolve_filename_cases [of "\<lambda>c. False" False 1 ?r]
    by (simp add: asc_def fmt02d_def digits.simps is_sep_def is_kept_def is_word_def
        py_isalnum_def py_isspace_def)
  moreover have "resolve_filename (\<lambda>c. False) True 7 ?r = asc ''08-Hi -there.pdf''"
    using resolve_filename_cases [of "\<lambda>c. False" True 7 ?r]
    by (simp add: chapter_names_def asc_def fmt02d_def digits.simps is_sep_def is_kept_def
        is_word_def py_isalnum_def py_isspace_def)
  ultimately show ?thesis by simp
qed

text \<open>
  Claim C10. \<open>sanitize_filename\<close> is idempotent: applied to its own output it returns
  that output unchanged.
\<close>

theorem sanitize_filename_idem:
  "sanitize_filename U (sanitize_filename U s) = sanitize_filename U s"
proof -
  let ?n3 = "re_sub_class (\<lambda>c. \<not> is_kept U c) [] (re_sub_class is_sep (asc ''-'') (strip s))"
  let ?n4 = "re_sub_class py_isspace (asc '' '') ?n3"
  let ?out = "sanitize_filename U s"
  have out: "?out = strip ?n4"
    by (simp add: sanitize_filename_def Let_def)
  have kept: "\<forall>c \<in> set ?out. is_kept U c"
    by (simp add: set_sanitize_filename)
  have s1: "strip ?out = ?out"
    by (simp only: out strip_idem)
  have "\<forall>c \<in> set ?out. \<not> is_sep c"
    using kept is_kept_not_sep by (auto simp add: is_sep_def)
  then have s2: "re_sub_class is_sep (asc ''-'') ?out = ?out"
    by (rule re_sub_class_none)
  have "\<forall>c \<in> set ?out. \<not> \<not> is_kept U c"
    using kept by simp
  then have s3: "re_sub_class (\<lambda>c. \<not> is_kept U c) [] ?out = ?out"
    by (rule re_sub_class_none)
  have asc_space: "asc '' '' = [32]"
    by (simp add: asc_def)
  have "successively (\<lambda>a b. \<not> (py_isspace a \<and> py_isspace b)) ?n4"
    unfolding asc_space by (rule collapsed_re_sub_class)
  then have adj: "successively (\<lambda>a b. \<not> (py_isspace a \<and> py_isspace b)) ?out"
    unfolding out by (rule successively_strip)
  have "set ?n4 \<subseteq> {c \<in> set ?n3. \<not> py_isspace c} \<union> set (asc '' '')"
    by (rule set_re_sub_class)
  then have "\<forall>c \<in> set ?n4. py_isspace c \<longrightarrow> c = 32"
    by (auto simp add: asc_def)
  then have sp: "\<forall>c \<in> set ?out. py_isspace c \<longrightarrow> c = 32"
    unfolding out using set_strip by blast
  have "re_sub_class py_isspace [32] ?out = ?out"
    using adj sp by (rule re_sub_class_collapsed)
  then have s4: "re_sub_class py_isspace (asc '' '') ?out = ?out"
    by (simp only: asc_space)
  show ?thesis
    unfolding sanitize_filename_def [of U ?out] Let_def using s1 s2 s3 s4 by simp
qed

text \<open>
  The theorem at the input \<^verbatim>\<open>  ..//a   b? \<close>, whose sanitized name is \<^verbatim>\<open>..-a b\<close>:
  sanitizing that name again gives it back.
\<close>

theorem sanitize_filename_idem_witness:
  "sanitize_filename (\<lambda>c. False) (asc ''..-a b'') = asc ''..-a b''"
proof -
  have e: "sanitize_filename (\<lambda>c. False) (asc ''  ..//a   b? '') = asc ''..-a b''"
    by (simp add: sanitize_filename_def strip_def asc_def is_sep_def is_kept_def is_word_def
        py_isalnum_def py_isspace_def)
  from sanitize_filename_idem [of "\<lambda>c. False" "asc ''  ..//a   b? ''"]
  show ?thesis by (simp only: e)
qed

section \<open>Properties of a run of the splitter\<close>

text \<open>
  Every output name starts with the 1-based chapter index in decimal, followed by a
  hyphen: the number read from the characters before the first hyphen is \<open>i + 1\<close>.
  Hence different chapters get different names.
\<close>

lemma digits_value: "foldl (\<lambda>a d. 10 * a + (d - 48)) 0 (digits n) = n"
proof (induction n rule: digits.induct)
  case (1 n)
  show ?case
  proof (cases "n < 10")
    case True
    then show ?thesis by (simp add: digits.simps [of n])
  next
    case False
    with 1 show ?thesis by (simp add: digits.simps [of n])
  qed
qed

lemma zeros_value: "foldl (\<lambda>a d. 10 * a + (d - 48)) 0 (replicate k 48) = (0::nat)"
  by (induction k) simp_all

lemma fmt02d_value: "foldl (\<lambda>a d. 10 * a + (d - 48)) 0 (fmt02d n) = n"
  by (simp add: fmt02d_def Let_def zeros_value digits_value)

lemma fmt02d_prefix:
  "takeWhile (\<lambda>c. c \<noteq> 45) (fmt02d n @ asc ''-'' @ x) = fmt02d n"
proof -
  have "\<forall>c \<in> set (fmt02d n). c \<noteq> 45"
    using fmt02d_chars [of n] by auto
  then show ?thesis
    by (simp add: asc_def)
qed

lemma chapter_names_index:
  assumes "i < length chapter_names"
  shows "foldl (\<lambda>a d. 10 * a + (d - 48)) 0 (takeWhile (\<lambda>c. c \<noteq> 45) (chapter_names ! i)) = i + 1"
proof -
  let ?N = "\<lambda>name. foldl (\<lambda>a d. 10 * a + (d - 48)) (0::nat) (takeWhile (\<lambda>c. c \<noteq> 45) name)"
  have "map ?N chapter_names = map Suc [0..<7]"
    by (simp add: chapter_names_def asc_def upt_rec)
  moreover have len: "length chapter_names = 7"
    by (simp add: chapter_names_def)
  ultimately have "map ?N chapter_names ! i = map Suc [0..<7] ! i"
    by simp
  with assms len show ?thesis
    by simp
qed

lemma resolve_filename_index:
  "foldl (\<lambda>a d. 10 * a + (d - 48)) 0
     (takeWhile (\<lambda>c. c \<noteq> 45) (resolve_filename U use_chapter_names i info)) = i + 1"
proof (cases "use_chapter_names \<and> i < length chapter_names")
  case True
  then show ?thesis
    by (simp add: resolve_filename_def chapter_names_index)
next
  case False
  then have "resolve_filename U use_chapter_names i info =
        sanitize_filename U (fmt02d (i + 1) @ asc ''-'' @ title info @ asc ''.pdf'')"
    by (auto simp add: resolve_filename_def)
  then show ?thesis
    by (simp only: sanitize_filename_derived fmt02d_prefix fmt02d_value)
qed

lemma resolve_filename_inj:
  "resolve_filename U use_chapter_names i info = resolve_filename U use_chapter_names j info'
     \<Longrightarrow> i = j"
  using resolve_filename_index [of U use_chapter_names i info]
    resolve_filename_index [of U use_chapter_names j info']
  by simp

text \<open>
  The loop: a step that the index filter skips, a step that it selects, the files a
  run leaves alone, the files it changes, the run restricted to one index, and the
  run that ends without exception.
\<close>

lemma path_append_inj: "(out @ [a] = out @ [b]) = (a = b)"
  by simp

lemma write_file_frame: "p \<noteq> q \<Longrightarrow> snd (write_file env q w fs) p = fs p"
  by (simp add: write_file_def split: io_result.splits)

lemma write_file_cases:
  "(write_file env q w fs = (None, fs(q \<mapsto> Pdf w)) \<and> env q = IoOk) \<or>
   (write_file env q w fs = (Some OSError, fs) \<and> env q = IoFailsBeforeOpen) \<or>
   (write_file env q w fs = (Some OSError, fs(q \<mapsto> Damaged)) \<and> env q = IoFailsInWrite)"
  by (cases "env q") (simp_all add: write_file_def)

lemma split_loop_skip:
  "only \<noteq> None \<Longrightarrow> Some (int i) \<noteq> only \<Longrightarrow>
     split_loop env U reader out use only ((i, r) # rest) fs
       = split_loop env U reader out use only rest fs"
  by simp

lemma split_loop_step:
  "only = None \<or> only = Some (int i) \<Longrightarrow>
     split_loop env U reader out use only ((i, r) # rest) fs =
       (case build_writer reader r of
          Inl e \<Rightarrow> (Some e, fs)
        | Inr w \<Rightarrow>
            (case write_file env (out @ [resolve_filename U use i r]) w fs of
               (Some e, fs1) \<Rightarrow> (Some e, fs1)
             | (None, fs1) \<Rightarrow> split_loop env U reader out use only rest fs1))"
  by (cases only) auto

lemma split_loop_frame:
  "\<forall>(i, r) \<in> set es. (only = None \<or> only = Some (int i)) \<longrightarrow>
       p \<noteq> out @ [resolve_filename U use i r] \<Longrightarrow>
   snd (split_loop env U reader out use only es fs) p = fs p"
proof (induction es arbitrary: fs)
  case Nil
  then show ?case by simp
next
  case (Cons a es)
  obtain i r where a: "a = (i, r)" by (cases a)
  from Cons.prems have rest: "\<forall>(i, r) \<in> set es. (only = None \<or> only = Some (int i)) \<longrightarrow>
       p \<noteq> out @ [resolve_filename U use i r]"
    by simp
  show ?case
  proof (cases "only = None \<or> only = Some (int i)")
    case False
    then have "split_loop env U reader out use only (a # es) fs
        = split_loop env U reader out use only es fs"
      unfolding a by (intro split_loop_skip) auto
    with Cons.IH [OF rest] show ?thesis by simp
  next
    case True
    let ?q = "out @ [resolve_filename U use i r]"
    from True Cons.prems a have pq: "p \<noteq> ?q" by auto
    have step: "split_loop env U reader out use only (a # es) fs =
       (case build_writer reader r of
          Inl e \<Rightarrow> (Some e, fs)
        | Inr w \<Rightarrow>
            (case write_file env ?q w fs of
               (Some e, fs1) \<Rightarrow> (Some e, fs1)
             | (None, fs1) \<Rightarrow> split_loop env U reader out use only es fs1))"
      unfolding a by (rule split_loop_step [OF True])
    show ?thesis
    proof (cases "build_writer reader r")
      case (Inl e)
      with step show ?thesis by simp
    next
      case (Inr w)
      from write_file_cases [of env ?q w fs] show ?thesis
      proof (elim disjE conjE)
        assume wf: "write_file env ?q w fs = (None, fs(?q \<mapsto> Pdf w))"
        with step Inr have eq: "split_loop env U reader out use only (a # es) fs
            = split_loop env U reader out use only es (fs(?q \<mapsto> Pdf w))"
          by simp
        have "snd (split_loop env U reader out use only es (fs(?q \<mapsto> Pdf w))) p
            = (fs(?q \<mapsto> Pdf w)) p"
          by (rule Cons.IH [OF rest])
        also have "\<dots> = fs p"
          using pq by simp
        finally show ?thesis by (simp only: eq)
      next
        assume "write_file env ?q w fs = (Some OSError, fs)"
        with step Inr show ?thesis by simp
      next
        assume "write_file env ?q w fs = (Some OSError, fs(?q \<mapsto> Damaged))"
        with step Inr pq show ?thesis by simp
      qed
    qed
  qed
qed

lemma split_loop_changed:
  "snd (split_loop env U reader out use only es fs) p \<noteq> fs p \<Longrightarrow>
   \<exists>i r w. (i, r) \<in> set es \<and> (only = None \<or> only = Some (int i)) \<and>
      p = out @ [resolve_filename U use i r] \<and> build_writer reader r = Inr w \<and>
      (snd (split_loop env U reader out use only es fs) p = Some (Pdf w) \<or>
       snd (split_loop env U reader out use only es fs) p = Some Damaged)"
proof (induction es arbitrary: fs)
  case Nil
  then show ?case by simp
next
  case (Cons a es)
  obtain i r where a: "a = (i, r)" by (cases a)
  show ?case
  proof (cases "only = None \<or> only = Some (int i)")
    case False
    then have eq: "split_loop env U reader out use only (a # es) fs
        = split_loop env U reader out use only es fs"
      unfolding a by (intro split_loop_skip) auto
    from Cons.prems have "snd (split_loop env U reader out use only es fs) p \<noteq> fs p"
      unfolding eq .
    from Cons.IH [OF this] obtain i' r' w' where
      h: "(i', r') \<in> set es" "only = None \<or> only = Some (int i')"
        "p = out @ [resolve_filename U use i' r']" "build_writer reader r' = Inr w'"
        "snd (split_loop env U reader out use only es fs) p = Some (Pdf w') \<or>
         snd (split_loop env U reader out use only es fs) p = Some Damaged"
      by blast
    from h(1) have "(i', r') \<in> set (a # es)" by simp
    with h(2-5) show ?thesis unfolding eq by blast
  next
    case True
    let ?q = "out @ [resolve_filename U use i r]"
    have step: "split_loop env U reader out use only (a # es) fs =
       (case build_writer reader r of
          Inl e \<Rightarrow> (Some e, fs)
        | Inr w \<Rightarrow>
            (case write_file env ?q w fs of
               (Some e, fs1) \<Rightarrow> (Some e, fs1)
             | (None, fs1) \<Rightarrow> split_loop env U reader out use only es fs1))"
      unfolding a by (rule split_loop_step [OF True])
    show ?thesis
    proof (cases "build_writer reader r")
      case (Inl e)
      with step Cons.prems show ?thesis by simp
    next
      case (Inr w)
      from write_file_cases [of env ?q w fs] show ?thesis
      proof (elim disjE conjE)
        assume wf: "write_file env ?q w fs = (None, fs(?q \<mapsto> Pdf w))"
        let ?fs1 = "fs(?q \<mapsto> Pdf w)"
        from wf step Inr have eq: "split_loop env U reader out use only (a # es) fs
            = split_loop env U reader out use only es ?fs1"
          by simp
        show ?thesis
        proof (cases "snd (split_loop env U reader out use only es ?fs1) p = ?fs1 p")
          case False
          from Cons.IH [OF False] obtain i' r' w' where
            h: "(i', r') \<in> set es" "only = None \<or> only = Some (int i')"
              "p = out @ [resolve_filename U use i' r']" "build_writer reader r' = Inr w'"
              "snd (split_loop env U reader out use only es ?fs1) p = Some (Pdf w') \<or>
               snd (split_loop env U reader out use only es ?fs1) p = Some Damaged"
            by blast
          from h(1) have "(i', r') \<in> set (a # es)" by simp
          with h(2-5) show ?thesis unfolding eq by blast
        next
          case same: True
          from Cons.prems have "snd (split_loop env U reader out use only es ?fs1) p \<noteq> fs p"
            unfolding eq .
          then have "?fs1 p \<noteq> fs p" unfolding same .
          then have pq: "p = ?q" by (auto split: if_splits)
          then have "?fs1 p = Some (Pdf w)" by simp
          with same have "snd (split_loop env U reader out use only es ?fs1) p = Some (Pdf w)"
            by (rule trans)
          moreover have "(i, r) \<in> set (a # es)" using a by simp
          ultimately show ?thesis unfolding eq using True Inr pq by blast
        qed
      next
        assume "write_file env ?q w fs = (Some OSError, fs)"
        with step Inr Cons.prems show ?thesis by simp
      next
        assume wf: "write_file env ?q w fs = (Some OSError, fs(?q \<mapsto> Damaged))"
        with step Inr have eq: "split_loop env U reader out use only (a # es) fs
            = (Some OSError, fs(?q \<mapsto> Damaged))"
          by simp
        from Cons.prems have "(fs(?q \<mapsto> Damaged)) p \<noteq> fs p"
          unfolding eq by simp
        then have pq: "p = ?q" by (auto split: if_splits)
        then have "snd (Some OSError, fs(?q \<mapsto> Damaged)) p = Some Damaged" by simp
        moreover have "(i, r) \<in> set (a # es)" using a by simp
        ultimately show ?thesis unfolding eq using True Inr pq by blast
      qed
    qed
  qed
qed

lemma split_loop_none_selected:
  "\<forall>(i, r) \<in> set es. \<not> (only = None \<or> only = Some (int i)) \<Longrightarrow>
     split_loop env U reader out use only es fs = (None, fs)"
proof (induction es)
  case Nil
  then show ?case by simp
next
  case (Cons a es)
  obtain i r where a: "a = (i, r)" by (cases a)
  from Cons.prems a have "only \<noteq> None" "Some (int i) \<noteq> only" by auto
  then have "split_loop env U reader out use only (a # es) fs
        = split_loop env U reader out use only es fs"
    unfolding a by (rule split_loop_skip)
  also from Cons.prems have "\<dots> = (None, fs)"
    by (intro Cons.IH) simp
  finally show ?case .
qed

lemma split_loop_only:
  "split_loop env U reader out use (Some (int k)) (enumerate n xs) fs =
     (if n \<le> k \<and> k < n + length xs
      then (case build_writer reader (xs ! (k - n)) of
              Inl e \<Rightarrow> (Some e, fs)
            | Inr w \<Rightarrow> write_file env (out @ [resolve_filename U use k (xs ! (k - n))]) w fs)
      else (None, fs))"
proof (induction xs arbitrary: n)
  case Nil
  then show ?case by auto
next
  case (Cons x xs)
  have en: "enumerate n (x # xs) = (n, x) # enumerate (Suc n) xs" by simp
  show ?case
  proof (cases "n = k")
    case True
    have later: "\<forall>(i, r) \<in> set (enumerate (Suc n) xs).
        \<not> (Some (int n) = None \<or> Some (int n) = Some (int i))"
      by (auto simp add: in_set_enumerate_eq)
    have rest: "split_loop env U reader out use (Some (int n)) (enumerate (Suc n) xs) fs1
        = (None, fs1)" for fs1
      using later by (rule split_loop_none_selected)
    have "split_loop env U reader out use (Some (int n)) ((n, x) # enumerate (Suc n) xs) fs =
       (case build_writer reader x of
          Inl e \<Rightarrow> (Some e, fs)
        | Inr w \<Rightarrow>
            (case write_file env (out @ [resolve_filename U use n x]) w fs of
               (Some e, fs1) \<Rightarrow> (Some e, fs1)
             | (None, fs1) \<Rightarrow>
                 split_loop env U reader out use (Some (int n)) (enumerate (Suc n) xs) fs1))"
      by (intro split_loop_step) simp
    also have "\<dots> = (case build_writer reader x of
          Inl e \<Rightarrow> (Some e, fs)
        | Inr w \<Rightarrow> write_file env (out @ [resolve_filename U use n x]) w fs)"
      by (simp add: rest split: sum.splits prod.splits option.splits)
    also have "\<dots> = (if n \<le> n \<and> n < n + length (x # xs)
      then (case build_writer reader ((x # xs) ! (n - n)) of
              Inl e \<Rightarrow> (Some e, fs)
            | Inr w \<Rightarrow> write_file env (out @ [resolve_filename U use n ((x # xs) ! (n - n))]) w fs)
      else (None, fs))"
      by (auto split: sum.splits)
    finally show ?thesis
      unfolding True [symmetric] en .
  next
    case False
    then have "split_loop env U reader out use (Some (int k)) ((n, x) # enumerate (Suc n) xs) fs
        = split_loop env U reader out use (Some (int k)) (enumerate (Suc n) xs) fs"
      by (intro split_loop_skip) auto
    also have "\<dots> = (if Suc n \<le> k \<and> k < Suc n + length xs
      then (case build_writer reader (xs ! (k - Suc n)) of
              Inl e \<Rightarrow> (Some e, fs)
            | Inr w \<Rightarrow> write_file env (out @ [resolve_filename U use k (xs ! (k - Suc n))]) w fs)
      else (None, fs))"
      by (rule Cons.IH)
    also have "\<dots> = (if n \<le> k \<and> k < n + length (x # xs)
      then (case build_writer reader ((x # xs) ! (k - n)) of
              Inl e \<Rightarrow> (Some e, fs)
            | Inr w \<Rightarrow> write_file env (out @ [resolve_filename U use k ((x # xs) ! (k - n))]) w fs)
      else (None, fs))"
    proof (cases "n < k")
      case True
      then have "k - n = Suc (k - Suc n)" by simp
      then have "(x # xs) ! (k - n) = xs ! (k - Suc n)" by simp
      with True show ?thesis by (auto split: sum.splits)
    next
      case nk: False
      with \<open>n \<noteq> k\<close> show ?thesis by auto
    qed
    finally show ?thesis by (simp only: en)
  qed
qed

lemma split_loop_done:
  "fst (split_loop env U reader out use only (enumerate n xs) fs) = None \<Longrightarrow>
   \<forall>j < length xs. (only = None \<or> only = Some (int (n + j))) \<longrightarrow>
     (\<exists>w. build_writer reader (xs ! j) = Inr w \<and>
          env (out @ [resolve_filename U use (n + j) (xs ! j)]) = IoOk \<and>
          snd (split_loop env U reader out use only (enumerate n xs) fs)
            (out @ [resolve_filename U use (n + j) (xs ! j)]) = Some (Pdf w))"
proof (induction xs arbitrary: n fs)
  case Nil
  then show ?case by simp
next
  case (Cons x xs)
  have en: "enumerate n (x # xs) = (n, x) # enumerate (Suc n) xs" by simp
  let ?q = "out @ [resolve_filename U use n x]"
  let ?run = "split_loop env U reader out use only (enumerate n (x # xs)) fs"
  show ?case
  proof (cases "only = None \<or> only = Some (int n)")
    case False
    then have eq: "?run = split_loop env U reader out use only (enumerate (Suc n) xs) fs"
      unfolding en by (intro split_loop_skip) auto
    from Cons.prems have ok: "fst (split_loop env U reader out use only (enumerate (Suc n) xs) fs) = None"
      unfolding eq .
    show ?thesis
    proof (intro allI impI)
      fix j assume j: "j < length (x # xs)" and sel: "only = None \<or> only = Some (int (n + j))"
      from sel False obtain j' where j': "j = Suc j'" by (cases j) auto
      with j have lt: "j' < length xs" by simp
      have idx: "Suc n + j' = n + j" using j' by simp
      have nth: "(x # xs) ! j = xs ! j'" using j' by simp
      from Cons.IH [OF ok, rule_format, OF lt, unfolded idx, OF sel]
      show "\<exists>w. build_writer reader ((x # xs) ! j) = Inr w \<and>
          env (out @ [resolve_filename U use (n + j) ((x # xs) ! j)]) = IoOk \<and>
          snd ?run (out @ [resolve_filename U use (n + j) ((x # xs) ! j)]) = Some (Pdf w)"
        unfolding eq nth .
    qed
  next
    case True
    have step: "?run =
       (case build_writer reader x of
          Inl e \<Rightarrow> (Some e, fs)
        | Inr w \<Rightarrow>
            (case write_file env ?q w fs of
               (Some e, fs1) \<Rightarrow> (Some e, fs1)
             | (None, fs1) \<Rightarrow> split_loop env U reader out use only (enumerate (Suc n) xs) fs1))"
      unfolding en by (rule split_loop_step [OF True])
    from Cons.prems step obtain w where w: "build_writer reader x = Inr w"
      by (cases "build_writer reader x") simp_all
    from Cons.prems step w write_file_cases [of env ?q w fs]
    have wf: "write_file env ?q w fs = (None, fs(?q \<mapsto> Pdf w))" and io: "env ?q = IoOk"
      by auto
    let ?fs1 = "fs(?q \<mapsto> Pdf w)"
    from step w wf have eq: "?run = split_loop env U reader out use only (enumerate (Suc n) xs) ?fs1"
      by simp
    from Cons.prems have ok: "fst (split_loop env U reader out use only (enumerate (Suc n) xs) ?fs1) = None"
      unfolding eq .
    have untouched: "snd (split_loop env U reader out use only (enumerate (Suc n) xs) ?fs1) ?q = ?fs1 ?q"
    proof (rule split_loop_frame)
      show "\<forall>(i, r) \<in> set (enumerate (Suc n) xs). (only = None \<or> only = Some (int i)) \<longrightarrow>
          ?q \<noteq> out @ [resolve_filename U use i r]"
        using resolve_filename_inj [of U use n x]
        by (auto simp add: in_set_enumerate_eq)
    qed
    show ?thesis
    proof (intro allI impI)
      fix j assume j: "j < length (x # xs)" and sel: "only = None \<or> only = Some (int (n + j))"
      show "\<exists>w. build_writer reader ((x # xs) ! j) = Inr w \<and>
          env (out @ [resolve_filename U use (n + j) ((x # xs) ! j)]) = IoOk \<and>
          snd ?run (out @ [resolve_filename U use (n + j) ((x # xs) ! j)]) = Some (Pdf w)"
      proof (cases j)
        case 0
        have "?fs1 ?q = Some (Pdf w)" by simp
        with untouched have "snd (split_loop env U reader out use only (enumerate (Suc n) xs) ?fs1) ?q
            = Some (Pdf w)"
          by (rule trans)
        with w io show ?thesis unfolding eq 0 by simp
      next
        case (Suc j')
        with j have lt: "j' < length xs" by simp
        have idx: "Suc n + j' = n + j" using Suc by simp
        have nth: "(x # xs) ! j = xs ! j'" using Suc by simp
        from Cons.IH [OF ok, rule_format, OF lt, unfolded idx, OF sel]
        show ?thesis unfolding eq nth .
      qed
    qed
  qed
qed

lemma split_loop_total:
  "\<forall>(i, r) \<in> set es. (only = None \<or> only = Some (int i)) \<longrightarrow>
       (\<exists>w. build_writer reader r = Inr w) \<and> env (out @ [resolve_filename U use i r]) = IoOk \<Longrightarrow>
   fst (split_loop env U reader out use only es fs) = None"
proof (induction es arbitrary: fs)
  case Nil
  then show ?case by simp
next
  case (Cons a es)
  obtain i r where a: "a = (i, r)" by (cases a)
  from Cons.prems have rest: "\<forall>(i, r) \<in> set es. (only = None \<or> only = Some (int i)) \<longrightarrow>
       (\<exists>w. build_writer reader r = Inr w) \<and> env (out @ [resolve_filename U use i r]) = IoOk"
    by simp
  show ?case
  proof (cases "only = None \<or> only = Some (int i)")
    case False
    then have "split_loop env U reader out use only (a # es) fs
        = split_loop env U reader out use only es fs"
      unfolding a by (intro split_loop_skip) auto
    with Cons.IH [OF rest] show ?thesis by simp
  next
    case True
    with Cons.prems a obtain w where w: "build_writer reader r = Inr w"
      and io: "env (out @ [resolve_filename U use i r]) = IoOk"
      by auto
    from split_loop_step [OF True, of env U reader out use r es fs] w io
    have "split_loop env U reader out use only (a # es) fs
        = split_loop env U reader out use only es
            (fs(out @ [resolve_filename U use i r] \<mapsto> Pdf w))"
      unfolding a by (simp add: write_file_def)
    with Cons.IH [OF rest] show ?thesis by simp
  qed
qed

lemma upto_shift: "map (\<lambda>n. f (n - 1)) [a..b] = map f [a - 1..b - 1]"
  by (rule nth_equalityI) (simp_all add: algebra_simps)

lemma build_writer_domain:
  assumes "1 \<le> start_page r" and "start_page r \<le> end_page r"
    and "build_writer pdf r = Inr ps"
  shows "(if is_blank_page pdf (end_page r - 1) = Inr True \<and> start_page r < end_page r
          then end_page r - 1 else end_page r) \<le> int (length pdf) \<and>
         ps = map (\<lambda>n. pdf ! nat (n - 1))
                [start_page r..
                   (if is_blank_page pdf (end_page r - 1) = Inr True \<and> start_page r < end_page r
                    then end_page r - 1 else end_page r)]"
proof -
  define te where "te = (if is_blank_page pdf (end_page r - 1) = Inr True \<and> start_page r < end_page r
          then end_page r - 1 else end_page r)"
  from build_writer_Inr [OF assms(1,3)] obtain l where
    l: "last_page_to_include pdf r = Inr l" and
    inside: "\<forall>p \<in> set [start_page r - 1..l]. 0 \<le> p \<and> p < int (length pdf)" and
    ps: "ps = map (\<lambda>p. pdf ! nat p) [start_page r - 1..l]"
    by blast
  from last_page_to_include_Inr [OF l] obtain blank where
    b: "is_blank_page pdf (end_page r - 1) = Inr blank" and
    l_eq: "l = (if blank then max (start_page r - 1) (end_page r - 2) else end_page r - 1)"
    by blast
  from b have "(is_blank_page pdf (end_page r - 1) = Inr True) = blank" by simp
  with l_eq assms(2) have lt: "l = te - 1"
    by (auto simp add: te_def max_def)
  with assms(2) have "start_page r - 1 \<le> l"
    by (auto simp add: te_def)
  then have "l \<in> set [start_page r - 1..l]" by simp
  with inside have "l < int (length pdf)" by blast
  with lt have bound: "te \<le> int (length pdf)" by simp
  have "ps = map (\<lambda>n. pdf ! nat (n - 1)) [start_page r..te]"
    unfolding ps lt by (rule upto_shift [symmetric])
  with bound show ?thesis unfolding te_def by blast
qed

lemma split_pdf_opened:
  assumes "split_pdf env U pdf_path ranges output_dir use only fs = (err, fs')"
  shows "(\<exists>pdf. fs pdf_path = Some (Pdf pdf) \<and>
            split_loop env U pdf output_dir use only (enumerate 0 ranges) fs = (err, fs')) \<or>
         (err \<noteq> None \<and> fs' = fs)"
proof (cases "fs pdf_path")
  case None
  with assms show ?thesis by (auto simp add: split_pdf_def open_reader_def)
next
  case (Some c)
  with assms show ?thesis
    by (cases c) (auto simp add: split_pdf_def open_reader_def)
qed

lemma split_pdf_reader:
  "fs pdf_path = Some (Pdf pdf) \<Longrightarrow>
     split_pdf env U pdf_path ranges output_dir use only fs
       = split_loop env U pdf output_dir use only (enumerate 0 ranges) fs"
  by (simp add: split_pdf_def open_reader_def)

text \<open>
  When the source opens, every selected range lies inside the document and the
  environment lets every write succeed, the run ends without exception.
\<close>

lemma split_pdf_total:
  assumes "fs pdf_path = Some (Pdf pdf)"
    and "\<forall>i < length ranges. (only = None \<or> only = Some (int i)) \<longrightarrow>
           1 \<le> start_page (ranges ! i) \<and> start_page (ranges ! i) \<le> end_page (ranges ! i) \<and>
           end_page (ranges ! i) \<le> int (length pdf) \<and>
           env (output_dir @ [resolve_filename U use i (ranges ! i)]) = IoOk"
  shows "fst (split_pdf env U pdf_path ranges output_dir use only fs) = None"
proof -
  have "\<forall>(i, r) \<in> set (enumerate 0 ranges). (only = None \<or> only = Some (int i)) \<longrightarrow>
       (\<exists>w. build_writer pdf r = Inr w) \<and> env (output_dir @ [resolve_filename U use i r]) = IoOk"
  proof (clarify)
    fix i r
    assume mem: "(i, r) \<in> set (enumerate 0 ranges)" and sel: "only = None \<or> only = Some (int i)"
    from mem have i: "i < length ranges" and r: "r = ranges ! i"
      by (simp_all add: in_set_enumerate_eq)
    from assms(2) i sel r have v: "1 \<le> start_page r" "start_page r \<le> end_page r"
        "end_page r \<le> int (length pdf)"
      and io: "env (output_dir @ [resolve_filename U use i r]) = IoOk"
      by auto
    from build_writer_valid_eq [OF v] io
    show "(\<exists>w. build_writer pdf r = Inr w) \<and> env (output_dir @ [resolve_filename U use i r]) = IoOk"
      by blast
  qed
  then have "fst (split_loop env U pdf output_dir use only (enumerate 0 ranges) fs) = None"
    by (rule split_loop_total)
  with assms(1) show ?thesis
    by (simp add: split_pdf_reader)
qed

text \<open>
  Claim C5. For every ChapterRange that the splitter processes, taken from the
  documented domain of the type (1-based page numbers, \<open>start_page \<le> end_page\<close>), the
  output document holds exactly the pages from \<open>start_page\<close> to the possibly trimmed
  \<open>end_page\<close> (\<open>end_page - 1\<close> when the last page is blank and the range has more than
  one page, \<open>end_page\<close> otherwise), each inside the document, in document order, each
  once. On the file system: every document that a run writes is the file of one
  selected range \<open>i\<close>, at the path of the name resolved for \<open>i\<close> in the output
  directory, and holds the writer built for that range; and after a run that ends
  without exception every selected range has its file.
\<close>

theorem split_pdf_pages:
  assumes "split_pdf env U pdf_path ranges output_dir use only fs = (err, fs')"
  shows
    "(\<forall>p ps. fs' p = Some (Pdf ps) \<and> fs' p \<noteq> fs p \<longrightarrow>
        (\<exists>pdf i. fs pdf_path = Some (Pdf pdf) \<and> i < length ranges \<and>
           (only = None \<or> only = Some (int i)) \<and>
           p = output_dir @ [resolve_filename U use i (ranges ! i)] \<and>
           build_writer pdf (ranges ! i) = Inr ps \<and>
           (1 \<le> start_page (ranges ! i) \<and> start_page (ranges ! i) \<le> end_page (ranges ! i) \<longrightarrow>
              (if is_blank_page pdf (end_page (ranges ! i) - 1) = Inr True \<and>
                  start_page (ranges ! i) < end_page (ranges ! i)
               then end_page (ranges ! i) - 1 else end_page (ranges ! i)) \<le> int (length pdf) \<and>
              ps = map (\<lambda>n. pdf ! nat (n - 1))
                     [start_page (ranges ! i)..
                        (if is_blank_page pdf (end_page (ranges ! i) - 1) = Inr True \<and>
                            start_page (ranges ! i) < end_page (ranges ! i)
                         then end_page (ranges ! i) - 1 else end_page (ranges ! i))]))) \<and>
     (err = None \<longrightarrow>
        (\<exists>pdf. fs pdf_path = Some (Pdf pdf) \<and>
           (\<forall>i < length ranges. (only = None \<or> only = Some (int i)) \<longrightarrow>
              (\<exists>ps. fs' (output_dir @ [resolve_filename U use i (ranges ! i)]) = Some (Pdf ps) \<and>
                 build_writer pdf (ranges ! i) = Inr ps \<and>
                 (1 \<le> start_page (ranges ! i) \<and> start_page (ranges ! i) \<le> end_page (ranges ! i) \<longrightarrow>
                    (if is_blank_page pdf (end_page (ranges ! i) - 1) = Inr True \<and>
                        start_page (ranges ! i) < end_page (ranges ! i)
                     then end_page (ranges ! i) - 1 else end_page (ranges ! i)) \<le> int (length pdf) \<and>
                    ps = map (\<lambda>n. pdf ! nat (n - 1))
                           [start_page (ranges ! i)..
                              (if is_blank_page pdf (end_page (ranges ! i) - 1) = Inr True \<and>
                                  start_page (ranges ! i) < end_page (ranges ! i)
                               then end_page (ranges ! i) - 1 else end_page (ranges ! i))])))))"
proof (intro conjI allI impI)
  fix p ps
  assume changed: "fs' p = Some (Pdf ps) \<and> fs' p \<noteq> fs p"
  from split_pdf_opened [OF assms] changed obtain pdf where
    src: "fs pdf_path = Some (Pdf pdf)" and
    run: "split_loop env U pdf output_dir use only (enumerate 0 ranges) fs = (err, fs')"
    by auto
  from changed run
  have "snd (split_loop env U pdf output_dir use only (enumerate 0 ranges) fs) p \<noteq> fs p"
    by auto
  from split_loop_changed [OF this] run changed obtain i r where
    mem: "(i, r) \<in> set (enumerate 0 ranges)" and sel: "only = None \<or> only = Some (int i)" and
    p: "p = output_dir @ [resolve_filename U use i r]" and bw: "build_writer pdf r = Inr ps"
    by auto
  from mem have i: "i < length ranges" and r: "r = ranges ! i"
    by (simp_all add: in_set_enumerate_eq)
  from build_writer_domain [of "ranges ! i" pdf ps] bw r
  have "1 \<le> start_page (ranges ! i) \<and> start_page (ranges ! i) \<le> end_page (ranges ! i) \<longrightarrow>
              (if is_blank_page pdf (end_page (ranges ! i) - 1) = Inr True \<and>
                  start_page (ranges ! i) < end_page (ranges ! i)
               then end_page (ranges ! i) - 1 else end_page (ranges ! i)) \<le> int (length pdf) \<and>
              ps = map (\<lambda>n. pdf ! nat (n - 1))
                     [start_page (ranges ! i)..
                        (if is_blank_page pdf (end_page (ranges ! i) - 1) = Inr True \<and>
                            start_page (ranges ! i) < end_page (ranges ! i)
                         then end_page (ranges ! i) - 1 else end_page (ranges ! i))]"
    by blast
  with src i sel p bw r
  show "\<exists>pdf i. fs pdf_path = Some (Pdf pdf) \<and> i < length ranges \<and>
           (only = None \<or> only = Some (int i)) \<and>
           p = output_dir @ [resolve_filename U use i (ranges ! i)] \<and>
           build_writer pdf (ranges ! i) = Inr ps \<and>
           (1 \<le> start_page (ranges ! i) \<and> start_page (ranges ! i) \<le> end_page (ranges ! i) \<longrightarrow>
              (if is_blank_page pdf (end_page (ranges ! i) - 1) = Inr True \<and>
                  start_page (ranges ! i) < end_page (ranges ! i)
               then end_page (ranges ! i) - 1 else end_page (ranges ! i)) \<le> int (length pdf) \<and>
              ps = map (\<lambda>n. pdf ! nat (n - 1))
                     [start_page (ranges ! i)..
                        (if is_blank_page pdf (end_page (ranges ! i) - 1) = Inr True \<and>
                            start_page (ranges ! i) < end_page (ranges ! i)
                         then end_page (ranges ! i) - 1 else end_page (ranges ! i))])"
    by blast
next
  assume ok: "err = None"
  from split_pdf_opened [OF assms] ok obtain pdf where
    src: "fs pdf_path = Some (Pdf pdf)" and
    run: "split_loop env U pdf output_dir use only (enumerate 0 ranges) fs = (err, fs')"
    by auto
  from run ok have "fst (split_loop env U pdf output_dir use only (enumerate 0 ranges) fs) = None"
    by simp
  from split_loop_done [OF this] run
  have "\<forall>j < length ranges. (only = None \<or> only = Some (int j)) \<longrightarrow>
     (\<exists>w. build_writer pdf (ranges ! j) = Inr w \<and>
          env (output_dir @ [resolve_filename U use j (ranges ! j)]) = IoOk \<and>
          fs' (output_dir @ [resolve_filename U use j (ranges ! j)]) = Some (Pdf w))"
    by simp
  then have files: "\<forall>j < length ranges. (only = None \<or> only = Some (int j)) \<longrightarrow>
     (\<exists>w. build_writer pdf (ranges ! j) = Inr w \<and>
          fs' (output_dir @ [resolve_filename U use j (ranges ! j)]) = Some (Pdf w))"
    by blast
  have "\<forall>i < length ranges. (only = None \<or> only = Some (int i)) \<longrightarrow>
              (\<exists>ps. fs' (output_dir @ [resolve_filename U use i (ranges ! i)]) = Some (Pdf ps) \<and>
                 build_writer pdf (ranges ! i) = Inr ps \<and>
                 (1 \<le> start_page (ranges ! i) \<and> start_page (ranges ! i) \<le> end_page (ranges ! i) \<longrightarrow>
                    (if is_blank_page pdf (end_page (ranges ! i) - 1) = Inr True \<and>
                        start_page (ranges ! i) < end_page (ranges ! i)
                     then end_page (ranges ! i) - 1 else end_page (ranges ! i)) \<le> int (length pdf) \<and>
                    ps = map (\<lambda>n. pdf ! nat (n - 1))
                           [start_page (ranges ! i)..
                              (if is_blank_page pdf (end_page (ranges ! i) - 1) = Inr True \<and>
                                  start_page (ranges ! i) < end_page (ranges ! i)
                               then end_page (ranges ! i) - 1 else end_page (ranges ! i))]))"
  proof (intro allI impI)
    fix i assume "i < length ranges" and "only = None \<or> only = Some (int i)"
    with files obtain w where w: "build_writer pdf (ranges ! i) = Inr w"
      and f: "fs' (output_dir @ [resolve_filename U use i (ranges ! i)]) = Some (Pdf w)"
      by blast
    from build_writer_domain [of "ranges ! i" pdf w] w f
    show "\<exists>ps. fs' (output_dir @ [resolve_filename U use i (ranges ! i)]) = Some (Pdf ps) \<and>
                 build_writer pdf (ranges ! i) = Inr ps \<and>
                 (1 \<le> start_page (ranges ! i) \<and> start_page (ranges ! i) \<le> end_page (ranges ! i) \<longrightarrow>
                    (if is_blank_page pdf (end_page (ranges ! i) - 1) = Inr True \<and>
                        start_page (ranges ! i) < end_page (ranges ! i)
                     then end_page (ranges ! i) - 1 else end_page (ranges ! i)) \<le> int (length pdf) \<and>
                    ps = map (\<lambda>n. pdf ! nat (n - 1))
                           [start_page (ranges ! i)..
                              (if is_blank_page pdf (end_page (ranges ! i) - 1) = Inr True \<and>
                                  start_page (ranges ! i) < end_page (ranges ! i)
                               then end_page (ranges ! i) - 1 else end_page (ranges ! i))])"
      by blast
  qed
  with src show "\<exists>pdf. fs pdf_path = Some (Pdf pdf) \<and>
           (\<forall>i < length ranges. (only = None \<or> only = Some (int i)) \<longrightarrow>
              (\<exists>ps. fs' (output_dir @ [resolve_filename U use i (ranges ! i)]) = Some (Pdf ps) \<and>
                 build_writer pdf (ranges ! i) = Inr ps \<and>
                 (1 \<le> start_page (ranges ! i) \<and> start_page (ranges ! i) \<le> end_page (ranges ! i) \<longrightarrow>
                    (if is_blank_page pdf (end_page (ranges ! i) - 1) = Inr True \<and>
                        start_page (ranges ! i) < end_page (ranges ! i)
                     then end_page (ranges ! i) - 1 else end_page (ranges ! i)) \<le> int (length pdf) \<and>
                    ps = map (\<lambda>n. pdf ! nat (n - 1))
                           [start_page (ranges ! i)..
                              (if is_blank_page pdf (end_page (ranges ! i) - 1) = Inr True \<and>
                                  start_page (ranges ! i) < end_page (ranges ! i)
                               then end_page (ranges ! i) - 1 else end_page (ranges ! i))])))"
    by blast
qed

text \<open>
  A run on a three-page document whose third page holds a single space, split into
  the ranges \<open>(1, 2)\<close> and \<open>(3, 3)\<close> with predefined names.
\<close>

lemma example_run:
  "split_pdf io_always_ok ascii_only [asc ''in'', asc ''main.pdf'']
     [\<lparr>title = asc ''A'', start_page = 1, end_page = 2\<rparr>,
      \<lparr>title = asc ''B'', start_page = 3, end_page = 3\<rparr>]
     [asc ''out''] True None
     (single_file [asc ''in'', asc ''main.pdf'']
        [text_page 1 ''a'', text_page 2 ''b'', text_page 3 '' ''])
   = (None,
      (single_file [asc ''in'', asc ''main.pdf'']
         [text_page 1 ''a'', text_page 2 ''b'', text_page 3 '' ''])
        ([asc ''out'', asc ''01-mol-bio.pdf''] \<mapsto> Pdf [text_page 1 ''a'', text_page 2 ''b''],
         [asc ''out'', asc ''02-history.pdf''] \<mapsto> Pdf [text_page 3 '' '']))"
  by (simp add: split_pdf_def open_reader_def single_file_def write_file_def io_always_ok_def
      resolve_filename_def chapter_names_def build_writer_def last_page_to_include_def
      is_blank_page_def pages_getitem_def text_page_def strip_def asc_def py_isspace_def
      upto.simps)

text \<open>
  The theorem at that run: the file of the first range holds pages 1 and 2.
\<close>

theorem split_pdf_pages_witness:
  "snd (split_pdf io_always_ok ascii_only [asc ''in'', asc ''main.pdf'']
     [\<lparr>title = asc ''A'', start_page = 1, end_page = 2\<rparr>,
      \<lparr>title = asc ''B'', start_page = 3, end_page = 3\<rparr>]
     [asc ''out''] True None
     (single_file [asc ''in'', asc ''main.pdf'']
        [text_page 1 ''a'', text_page 2 ''b'', text_page 3 '' '']))
     [asc ''out'', asc ''01-mol-bio.pdf'']
   = Some (Pdf [text_page 1 ''a'', text_page 2 ''b''])"
proof -
  let ?doc = "[text_page 1 ''a'', text_page 2 ''b'', text_page 3 '' '']"
  let ?rs = "[\<lparr>title = asc ''A'', start_page = 1, end_page = 2\<rparr>,
      \<lparr>title = asc ''B'', start_page = 3, end_page = 3\<rparr>]"
  let ?src = "[asc ''in'', asc ''main.pdf'']"
  let ?fs = "single_file ?src ?doc"
  let ?run = "split_pdf io_always_ok ascii_only ?src ?rs [asc ''out''] True None ?fs"
  have ok: "fst ?run = None"
    by (simp only: example_run fst_conv)
  have src: "?fs ?src = Some (Pdf ?doc)"
    by (simp add: single_file_def)
  have run: "?run = (fst ?run, snd ?run)"
    by simp
  from split_pdf_pages [OF run] ok
  obtain pdf where pdf: "?fs ?src = Some (Pdf pdf)" and
    files: "\<forall>i < length ?rs. (None = None \<or> None = Some (int i)) \<longrightarrow>
              (\<exists>ps. snd ?run ([asc ''out''] @ [resolve_filename ascii_only True i (?rs ! i)]) = Some (Pdf ps) \<and>
                 build_writer pdf (?rs ! i) = Inr ps \<and>
                 (1 \<le> start_page (?rs ! i) \<and> start_page (?rs ! i) \<le> end_page (?rs ! i) \<longrightarrow>
                    (if is_blank_page pdf (end_page (?rs ! i) - 1) = Inr True \<and>
                        start_page (?rs ! i) < end_page (?rs ! i)
                     then end_page (?rs ! i) - 1 else end_page (?rs ! i)) \<le> int (length pdf) \<and>
                    ps = map (\<lambda>n. pdf ! nat (n - 1))
                           [start_page (?rs ! i)..
                              (if is_blank_page pdf (end_page (?rs ! i) - 1) = Inr True \<and>
                                  start_page (?rs ! i) < end_page (?rs ! i)
                               then end_page (?rs ! i) - 1 else end_page (?rs ! i))]))"
    by blast
  from pdf src have pdf_eq: "pdf = ?doc" by simp
  have b: "is_blank_page ?doc 1 = Inr False"
    by (simp add: is_blank_page_def pages_getitem_def text_page_def strip_def asc_def
        py_isspace_def)
  have name: "resolve_filename ascii_only True 0 (?rs ! 0) = asc ''01-mol-bio.pdf''"
    by (simp add: resolve_filename_def chapter_names_def)
  from files [rule_format, of 0] obtain ps where
    f: "snd ?run ([asc ''out''] @ [resolve_filename ascii_only True 0 (?rs ! 0)]) = Some (Pdf ps)" and
    ps: "ps = map (\<lambda>n. pdf ! nat (n - 1))
                           [start_page (?rs ! 0)..
                              (if is_blank_page pdf (end_page (?rs ! 0) - 1) = Inr True \<and>
                                  start_page (?rs ! 0) < end_page (?rs ! 0)
                               then end_page (?rs ! 0) - 1 else end_page (?rs ! 0))]"
    by auto
  from ps b have "ps = [text_page 1 ''a'', text_page 2 ''b'']"
    by (simp add: pdf_eq upto.simps)
  with f name show ?thesis by simp
qed

text \<open>
  Claim C8 (as amended). A run of \<open>split_pdf\<close> changes no file other than the output
  files of the ranges it processes; so the source document is unchanged after the run,
  normal or failed, whenever its path is not the path of one of these output files.
  Each chapter's output is independent of the others: different chapters have
  different output paths, the run restricted to index \<open>i\<close> builds its writer from the
  source document and range \<open>i\<close> alone and writes it to the path of \<open>i\<close>, and after
  a full run that ends without exception the file of every chapter is the file that
  the run restricted to that chapter writes.
\<close>

theorem split_pdf_frame:
  assumes "split_pdf env U pdf_path ranges output_dir use only fs = (err, fs')"
  shows
    "(\<forall>p. (\<forall>i < length ranges. (only = None \<or> only = Some (int i)) \<longrightarrow>
              p \<noteq> output_dir @ [resolve_filename U use i (ranges ! i)]) \<longrightarrow>
          fs' p = fs p) \<and>
     ((\<forall>i < length ranges. (only = None \<or> only = Some (int i)) \<longrightarrow>
          pdf_path \<noteq> output_dir @ [resolve_filename U use i (ranges ! i)]) \<longrightarrow>
        fs' pdf_path = fs pdf_path) \<and>
     (\<forall>i < length ranges. \<forall>j < length ranges. i \<noteq> j \<longrightarrow>
        output_dir @ [resolve_filename U use i (ranges ! i)]
          \<noteq> output_dir @ [resolve_filename U use j (ranges ! j)]) \<and>
     (\<forall>pdf. fs pdf_path = Some (Pdf pdf) \<longrightarrow>
        (\<forall>i < length ranges.
           split_pdf env U pdf_path ranges output_dir use (Some (int i)) fs =
             (case build_writer pdf (ranges ! i) of
                Inl e \<Rightarrow> (Some e, fs)
              | Inr w \<Rightarrow>
                  write_file env (output_dir @ [resolve_filename U use i (ranges ! i)]) w fs))) \<and>
     (err = None \<and> only = None \<longrightarrow>
        (\<forall>i < length ranges.
           fs' (output_dir @ [resolve_filename U use i (ranges ! i)]) =
             snd (split_pdf env U pdf_path ranges output_dir use (Some (int i)) fs)
               (output_dir @ [resolve_filename U use i (ranges ! i)])))"
proof -
  have frame: "fs' p = fs p"
    if "\<forall>i < length ranges. (only = None \<or> only = Some (int i)) \<longrightarrow>
              p \<noteq> output_dir @ [resolve_filename U use i (ranges ! i)]" for p
  proof -
    from split_pdf_opened [OF assms] show ?thesis
    proof
      assume "\<exists>pdf. fs pdf_path = Some (Pdf pdf) \<and>
            split_loop env U pdf output_dir use only (enumerate 0 ranges) fs = (err, fs')"
      then obtain pdf where
        run: "split_loop env U pdf output_dir use only (enumerate 0 ranges) fs = (err, fs')"
        by blast
      have "snd (split_loop env U pdf output_dir use only (enumerate 0 ranges) fs) p = fs p"
      proof (rule split_loop_frame)
        show "\<forall>(i, r) \<in> set (enumerate 0 ranges). (only = None \<or> only = Some (int i)) \<longrightarrow>
            p \<noteq> output_dir @ [resolve_filename U use i r]"
          using that by (auto simp add: in_set_enumerate_eq)
      qed
      with run show ?thesis by simp
    next
      assume "err \<noteq> None \<and> fs' = fs"
      then show ?thesis by simp
    qed
  qed
  have single: "split_pdf env U pdf_path ranges output_dir use (Some (int i)) fs =
             (case build_writer pdf (ranges ! i) of
                Inl e \<Rightarrow> (Some e, fs)
              | Inr w \<Rightarrow>
                  write_file env (output_dir @ [resolve_filename U use i (ranges ! i)]) w fs)"
    if "fs pdf_path = Some (Pdf pdf)" and "i < length ranges" for pdf i
    using that by (simp add: split_pdf_reader split_loop_only split: sum.splits)
  have full: "fs' (output_dir @ [resolve_filename U use i (ranges ! i)]) =
             snd (split_pdf env U pdf_path ranges output_dir use (Some (int i)) fs)
               (output_dir @ [resolve_filename U use i (ranges ! i)])"
    if ok: "err = None \<and> only = None" and i: "i < length ranges" for i
  proof -
    from split_pdf_opened [OF assms] ok obtain pdf where
      src: "fs pdf_path = Some (Pdf pdf)" and
      run: "split_loop env U pdf output_dir use only (enumerate 0 ranges) fs = (err, fs')"
      by auto
    from run ok have "fst (split_loop env U pdf output_dir use only (enumerate 0 ranges) fs) = None"
      by simp
    from split_loop_done [OF this, rule_format, of i] i ok run obtain w where
      w: "build_writer pdf (ranges ! i) = Inr w" and
      io: "env (output_dir @ [resolve_filename U use i (ranges ! i)]) = IoOk" and
      f: "fs' (output_dir @ [resolve_filename U use i (ranges ! i)]) = Some (Pdf w)"
      by auto
    from single [OF src i] w io
    have "snd (split_pdf env U pdf_path ranges output_dir use (Some (int i)) fs)
               (output_dir @ [resolve_filename U use i (ranges ! i)]) = Some (Pdf w)"
      by (simp add: write_file_def)
    with f show ?thesis by simp
  qed
  have distinct_paths: "output_dir @ [resolve_filename U use i (ranges ! i)]
          \<noteq> output_dir @ [resolve_filename U use j (ranges ! j)]"
    if "i \<noteq> j" for i j
    using that resolve_filename_inj [of U use i "ranges ! i" j "ranges ! j"] by auto
  from frame single full distinct_paths show ?thesis
    by blast
qed

text \<open>
  The theorem at the run above, where the source \<^verbatim>\<open>in/main.pdf\<close> is not an output
  path: after the run the source still holds its three pages.
\<close>

theorem split_pdf_frame_witness:
  "snd (split_pdf io_always_ok ascii_only [asc ''in'', asc ''main.pdf'']
     [\<lparr>title = asc ''A'', start_page = 1, end_page = 2\<rparr>,
      \<lparr>title = asc ''B'', start_page = 3, end_page = 3\<rparr>]
     [asc ''out''] True None
     (single_file [asc ''in'', asc ''main.pdf'']
        [text_page 1 ''a'', text_page 2 ''b'', text_page 3 '' '']))
     [asc ''in'', asc ''main.pdf'']
   = Some (Pdf [text_page 1 ''a'', text_page 2 ''b'', text_page 3 '' ''])"
proof -
  let ?doc = "[text_page 1 ''a'', text_page 2 ''b'', text_page 3 '' '']"
  let ?rs = "[\<lparr>title = asc ''A'', start_page = 1, end_page = 2\<rparr>,
      \<lparr>title = asc ''B'', start_page = 3, end_page = 3\<rparr>]"
  let ?src = "[asc ''in'', asc ''main.pdf'']"
  let ?fs = "single_file ?src ?doc"
  let ?run = "split_pdf io_always_ok ascii_only ?src ?rs [asc ''out''] True None ?fs"
  have run: "?run = (fst ?run, snd ?run)"
    by simp
  have apart: "\<forall>i < length ?rs. (None = None \<or> None = Some (int i)) \<longrightarrow>
          ?src \<noteq> [asc ''out''] @ [resolve_filename ascii_only True i (?rs ! i)]"
    by (simp add: asc_def)
  from split_pdf_frame [OF run] apart have "snd ?run ?src = ?fs ?src"
    by blast
  then show ?thesis
    by (simp add: single_file_def)
qed

text \<open>
  The claim as stated fails when an output file is the source file. With the source
  \<^verbatim>\<open>d/01-mol-bio.pdf\<close>, the output directory \<^verbatim>\<open>d\<close> and predefined names, the first
  chapter is written over the source: the run ends without exception and the source,
  which held three pages, holds the two pages of the first chapter.
\<close>

theorem split_pdf_frame_counterexample:
  "fst (split_pdf io_always_ok ascii_only [asc ''d'', asc ''01-mol-bio.pdf'']
     [\<lparr>title = asc ''A'', start_page = 1, end_page = 2\<rparr>,
      \<lparr>title = asc ''B'', start_page = 3, end_page = 3\<rparr>]
     [asc ''d''] True None
     (single_file [asc ''d'', asc ''01-mol-bio.pdf'']
        [text_page 1 ''a'', text_page 2 ''b'', text_page 3 '' ''])) = None \<and>
   single_file [asc ''d'', asc ''01-mol-bio.pdf'']
        [text_page 1 ''a'', text_page 2 ''b'', text_page 3 '' '']
     [asc ''d'', asc ''01-mol-bio.pdf'']
     = Some (Pdf [text_page 1 ''a'', text_page 2 ''b'', text_page 3 '' '']) \<and>
   snd (split_pdf io_always_ok ascii_only [asc ''d'', asc ''01-mol-bio.pdf'']
     [\<lparr>title = asc ''A'', start_page = 1, end_page = 2\<rparr>,
      \<lparr>title = asc ''B'', start_page = 3, end_page = 3\<rparr>]
     [asc ''d''] True None
     (single_file [asc ''d'', asc ''01-mol-bio.pdf'']
        [text_page 1 ''a'', text_page 2 ''b'', text_page 3 '' '']))
     [asc ''d'', asc ''01-mol-bio.pdf'']
     = Some (Pdf [text_page 1 ''a'', text_page 2 ''b''])"
  by (simp add: split_pdf_def open_reader_def single_file_def write_file_def io_always_ok_def
      resolve_filename_def chapter_names_def build_writer_def last_page_to_include_def
      is_blank_page_def pages_getitem_def text_page_def strip_def asc_def py_isspace_def
      upto.simps)

end
